theory Spec2Isabelle
  imports Complex_Main "HOL-Library.Multiset"
begin

section \<open>Python values shared by the modules\<close>

text \<open>
  Exceptions are values. \<open>ValueError\<close> is what Python's \<open>range\<close> raises for a zero step and
  what \<open>numpy.dot\<close> raises for two vectors of different length; \<open>KeyError\<close> is a dictionary
  lookup of a missing key; \<open>LoadError\<close> stands for whatever the constructor of the
  embedding model raises when the model cannot be loaded; \<open>EncodeError\<close> for a failure of
  the model's \<open>encode\<close>; \<open>SystemExit\<close> for the exceptions that derive from
  \<open>BaseException\<close> but not from \<open>Exception\<close>, which \<open>except Exception\<close> does not catch.
  \<open>InvalidArgument\<close>, \<open>DuplicateTask\<close> and \<open>ModelUnavailable\<close> are the error kinds the
  specification names; no function of the source raises them.
\<close>

datatype error =
    ValueError
  | KeyError
  | LoadError
  | EncodeError
  | SystemExit
  | InvalidArgument
  | DuplicateTask
  | ModelUnavailable

text \<open>
  What a handler \<open>except Exception\<close> catches: every exception but those that derive from
  \<open>BaseException\<close> alone.
\<close>

fun is_Exception :: "error \<Rightarrow> bool" where
  "is_Exception SystemExit = False"
| "is_Exception e = True"

section \<open>Chunker: \<open>OCRProcessor.chunk_text\<close> (app/processing/ocr.py)\<close>

text \<open>
  A text is a \<open>string\<close>. The whitespace characters are the ones Python's \<open>str.split()\<close>
  and \<open>str.strip()\<close> recognise among the first 256 code points: tab, line feed, vertical
  tab, form feed, carriage return, the separators 0x1C..0x1F, space, 0x85 and 0xA0.
\<close>

definition isspace :: "char \<Rightarrow> bool" where
  "isspace c = (of_char c \<in> {9, 10, 11, 12, 13, 28, 29, 30, 31, 32, 133, 160 :: nat})"

text \<open>
  \<open>text.split()\<close>: runs of whitespace separate the words, no empty word is produced.
  \<open>split_from cur s\<close> scans \<open>s\<close> with the word read so far in \<open>cur\<close>.
\<close>

fun split_from :: "string \<Rightarrow> string \<Rightarrow> string list" where
  "split_from cur [] = (if cur = [] then [] else [cur])"
| "split_from cur (c # cs) =
     (if isspace c then (if cur = [] then split_from [] cs else cur # split_from [] cs)
      else split_from (cur @ [c]) cs)"

definition split :: "string \<Rightarrow> string list" where
  "split s = split_from [] s"

text \<open>\<open>sep.join(words)\<close>.\<close>

fun join :: "string \<Rightarrow> string list \<Rightarrow> string" where
  "join sep [] = []"
| "join sep [w] = w"
| "join sep (w # v # ws) = w @ sep @ join sep (v # ws)"

text \<open>\<open>s.strip()\<close>: leading and trailing whitespace removed.\<close>

definition strip :: "string \<Rightarrow> string" where
  "strip s = rev (dropWhile isspace (rev (dropWhile isspace s)))"

text \<open>
  A Python slice \<open>xs[i:j]\<close> with integer bounds: a negative bound counts from the end, and
  every bound is clamped into \<open>0..len(xs)\<close>.
\<close>

definition slice_bound :: "nat \<Rightarrow> int \<Rightarrow> nat" where
  "slice_bound n i = (if i < 0 then nat (max 0 (int n + i)) else min (nat i) n)"

definition slice :: "'a list \<Rightarrow> int \<Rightarrow> int \<Rightarrow> 'a list" where
  "slice xs i j =
     (let a = slice_bound (length xs) i; b = slice_bound (length xs) j
      in take (b - a) (drop a xs))"

text \<open>
  The body of \<open>for i in range(0, len(words), chunk_size - overlap)\<close>, from index \<open>i\<close> on and
  with the list \<open>chunks\<close> built so far. \<open>range\<close> with a positive step runs while \<open>i < stop\<close>,
  with a negative step while \<open>i > stop\<close>; a zero step is refused before the loop starts
  (see \<open>chunk_text\<close>).
\<close>

function chunk_loop :: "string list \<Rightarrow> int \<Rightarrow> int \<Rightarrow> int \<Rightarrow> string list \<Rightarrow> string list" where
  "chunk_loop words chunk_size step i chunks =
     (if (0 < step \<and> i < int (length words)) \<or> (step < 0 \<and> int (length words) < i)
      then (let chunk = join '' '' (slice words i (i + chunk_size))
            in chunk_loop words chunk_size step (i + step)
                 (if strip chunk \<noteq> [] then chunks @ [chunk] else chunks))
      else chunks)"
  by pat_completeness auto
termination
  by (relation "measure (\<lambda>(words, chunk_size, step, i, chunks).
        nat (if 0 < step then int (length words) - i else i - int (length words)))") auto

definition chunk_text :: "string \<Rightarrow> int \<Rightarrow> int \<Rightarrow> error + string list" where
  "chunk_text text chunk_size overlap =
     (let words = split text
      in if chunk_size - overlap = 0 then Inl ValueError
         else Inr (chunk_loop words chunk_size (chunk_size - overlap) 0 []))"

text \<open>
  The chunker as the specification words it: the windows of \<open>chunkSize\<close> tokens that start
  at the token positions \<open>0, stride, 2 * stride, ...\<close> below the number of tokens, each
  joined with single spaces.
\<close>

definition spec_windows :: "string list \<Rightarrow> nat \<Rightarrow> nat \<Rightarrow> string list list" where
  "spec_windows words width stride =
     map (\<lambda>k. take width (drop (k * stride) words))
       [0 ..< (length words + stride - 1) div stride]"

definition spec_chunk :: "string \<Rightarrow> int \<Rightarrow> int \<Rightarrow> string list" where
  "spec_chunk text chunk_size overlap =
     map (join '' '') (spec_windows (split text) (nat chunk_size) (nat (chunk_size - overlap)))"


section \<open>Similarity engine: \<open>EmbeddingsManager\<close> (app/processing/search.py)\<close>

text \<open>
  An embedding vector is a list of reals: the floating-point numbers of the source are read
  as the real numbers they stand for, without rounding, overflow or underflow. The one
  place where the source divides without a guard (\<open>similarity\<close> below) keeps the IEEE
  results of a division by zero.

  The external model \<open>SentenceTransformer\<close> is a record: its declared dimension and its
  \<open>encode\<close>, which may fail on a text. Constructing it may fail as well, so the constructor
  call \<open>SentenceTransformer(name)\<close> is the value \<open>error + sentence_transformer\<close> that the
  environment gives for it.
\<close>

type_synonym vec = "real list"

record sentence_transformer =
  encode :: "string \<Rightarrow> error + vec"
  get_sentence_embedding_dimension :: nat

text \<open>\<open>model.encode(texts)\<close> on a list: one vector per text, in order; it fails as a whole.\<close>

fun encode_list :: "sentence_transformer \<Rightarrow> string list \<Rightarrow> error + vec list" where
  "encode_list m [] = Inr []"
| "encode_list m (t # ts) =
     (case encode m t of
        Inl e \<Rightarrow> Inl e
      | Inr v \<Rightarrow> (case encode_list m ts of Inl e \<Rightarrow> Inl e | Inr vs \<Rightarrow> Inr (v # vs)))"

text \<open>\<open>numpy.dot\<close> of two one-dimensional arrays, and \<open>numpy.linalg.norm\<close>.\<close>

definition dot :: "vec \<Rightarrow> vec \<Rightarrow> error + real" where
  "dot a b = (if length a \<noteq> length b then Inl ValueError
              else Inr (sum_list (map (\<lambda>(x, y). x * y) (zip a b))))"

definition linalg_norm :: "vec \<Rightarrow> real" where
  "linalg_norm a = sqrt (sum_list (map (\<lambda>x. x * x) a))"

record embeddings_manager =
  model :: sentence_transformer
  embedding_dim :: nat

text \<open>\<open>EmbeddingsManager.__init__\<close>: the constructor's exception is logged and raised again.\<close>

definition EmbeddingsManager_init :: "error + sentence_transformer \<Rightarrow> error + embeddings_manager" where
  "EmbeddingsManager_init loaded =
     (case loaded of
        Inl e \<Rightarrow> Inl e
      | Inr m \<Rightarrow> Inr \<lparr>model = m, embedding_dim = get_sentence_embedding_dimension m\<rparr>)"

definition embed_text :: "embeddings_manager \<Rightarrow> string \<Rightarrow> error + vec" where
  "embed_text self t = (case encode (model self) t of Inl e \<Rightarrow> Inl e | Inr v \<Rightarrow> Inr v)"

definition embed_texts :: "embeddings_manager \<Rightarrow> string list \<Rightarrow> error + vec list" where
  "embed_texts self ts =
     (case encode_list (model self) ts of Inl e \<Rightarrow> Inl e | Inr vs \<Rightarrow> Inr vs)"

definition cosine_similarity :: "vec \<Rightarrow> vec \<Rightarrow> error + real" where
  "cosine_similarity vec1 vec2 =
     (case dot vec1 vec2 of
        Inl e \<Rightarrow> Inl e
      | Inr dot_product \<Rightarrow>
          (let norm_vec1 = linalg_norm vec1; norm_vec2 = linalg_norm vec2
           in if norm_vec1 = 0 \<or> norm_vec2 = 0 then Inr 0
              else Inr (dot_product / (norm_vec1 * norm_vec2))))"

text \<open>
  \<open>xs.sort(key=lambda x: x[1], reverse=True)\<close>. Python's sort is stable, and with
  \<open>reverse=True\<close> it reverses the list, sorts it stably in ascending order and reverses the
  result, so that elements with equal keys keep their original order.
\<close>

definition sort_by_score_reverse :: "('a \<times> real) list \<Rightarrow> ('a \<times> real) list" where
  "sort_by_score_reverse xs = rev (sort_key snd (rev xs))"

text \<open>The loop of \<open>search\<close> over \<open>zip(documents, doc_embeddings)\<close>.\<close>

fun similarities_loop ::
  "vec \<Rightarrow> (string \<times> vec) list \<Rightarrow> (string \<times> real) list \<Rightarrow> error + (string \<times> real) list" where
  "similarities_loop query_embedding [] similarities = Inr similarities"
| "similarities_loop query_embedding ((doc, embedding) # rest) similarities =
     (case cosine_similarity query_embedding embedding of
        Inl e \<Rightarrow> Inl e
      | Inr similarity \<Rightarrow>
          similarities_loop query_embedding rest (similarities @ [(doc, similarity)]))"

definition search ::
  "embeddings_manager \<Rightarrow> string \<Rightarrow> string list \<Rightarrow> int \<Rightarrow> error + (string \<times> real) list" where
  "search self query documents top_k =
     (case embed_text self query of
        Inl e \<Rightarrow> Inl e
      | Inr query_embedding \<Rightarrow>
          (case embed_texts self documents of
             Inl e \<Rightarrow> Inl e
           | Inr doc_embeddings \<Rightarrow>
               (case similarities_loop query_embedding (zip documents doc_embeddings) [] of
                  Inl e \<Rightarrow> Inl e
                | Inr similarities \<Rightarrow> Inr (slice (sort_by_score_reverse similarities) 0 top_k))))"

text \<open>
  The loop of \<open>batch_search\<close>, \<open>for i in range(0, len(documents), chunk_size)\<close>, from index
  \<open>i\<close> on, with \<open>all_results\<close> as collected so far.
\<close>

function batch_loop ::
  "embeddings_manager \<Rightarrow> string \<Rightarrow> string list \<Rightarrow> int \<Rightarrow> int \<Rightarrow> (string \<times> real) list
     \<Rightarrow> error + (string \<times> real) list" where
  "batch_loop self query documents chunk_size i all_results =
     (if (0 < chunk_size \<and> i < int (length documents)) \<or>
         (chunk_size < 0 \<and> int (length documents) < i)
      then (let batch = slice documents i (i + chunk_size)
            in case search self query batch (int (length batch)) of
                 Inl e \<Rightarrow> Inl e
               | Inr results \<Rightarrow>
                   batch_loop self query documents chunk_size (i + chunk_size)
                     (all_results @ results))
      else Inr all_results)"
  by pat_completeness auto
termination
  by (relation "measure (\<lambda>(self, query, documents, chunk_size, i, all_results).
        nat (if 0 < chunk_size then int (length documents) - i else i - int (length documents)))")
     auto

definition batch_search ::
  "embeddings_manager \<Rightarrow> string \<Rightarrow> string list \<Rightarrow> int \<Rightarrow> int \<Rightarrow> error + (string \<times> real) list" where
  "batch_search self query documents chunk_size top_k =
     (if chunk_size = 0 then Inl ValueError
      else (case batch_loop self query documents chunk_size 0 [] of
              Inl e \<Rightarrow> Inl e
            | Inr all_results \<Rightarrow> Inr (slice (sort_by_score_reverse all_results) 0 top_k)))"

text \<open>
  The score of a document against a query under a manager, where every step succeeds
  (0 otherwise): the vocabulary in which the ranking properties are stated.
\<close>

definition doc_score :: "embeddings_manager \<Rightarrow> string \<Rightarrow> string \<Rightarrow> real" where
  "doc_score self query doc =
     (case encode (model self) query of
        Inl e \<Rightarrow> 0
      | Inr q \<Rightarrow>
          (case encode (model self) doc of
             Inl e \<Rightarrow> 0
           | Inr d \<Rightarrow> (case cosine_similarity q d of Inl e \<Rightarrow> 0 | Inr s \<Rightarrow> s)))"

definition scored :: "embeddings_manager \<Rightarrow> string \<Rightarrow> string list \<Rightarrow> (string \<times> real) list" where
  "scored self query documents = map (\<lambda>doc. (doc, doc_score self query doc)) documents"

text \<open>
  A stand-in for the external model, used to run the search on concrete inputs: the
  embedding of a text is the one-dimensional vector holding its length minus 2.
\<close>

definition length_model :: sentence_transformer where
  "length_model =
     \<lparr>encode = (\<lambda>t. Inr [real (length t) - 2]), get_sentence_embedding_dimension = 1\<rparr>"

definition length_manager :: embeddings_manager where
  "length_manager = \<lparr>model = length_model, embedding_dim = 1\<rparr>"

section \<open>Vectorizer functions of app/processing/embeddings.py\<close>

text \<open>
  The module keeps the model in the global \<open>embedding_model\<close>, \<open>None\<close> until the first
  successful load; every function takes the global's value and gives what it returns or
  raises, and the global's new value. \<open>get_embeddings_model\<close> catches an \<open>Exception\<close> of the
  constructor, logs it and returns the global, still \<open>None\<close>; an exception that is not an
  \<open>Exception\<close> leaves the function.
\<close>

definition get_embeddings_model ::
  "error + sentence_transformer \<Rightarrow> sentence_transformer option
     \<Rightarrow> (error + sentence_transformer option) \<times> sentence_transformer option" where
  "get_embeddings_model loaded embedding_model =
     (case embedding_model of
        None \<Rightarrow>
          (case loaded of
             Inl e \<Rightarrow> if is_Exception e then (Inr None, None) else (Inl e, None)
           | Inr m \<Rightarrow> (Inr (Some m), Some m))
      | Some m \<Rightarrow> (Inr (Some m), Some m))"

text \<open>
  \<open>embed_text\<close> and \<open>embed_texts\<close> of the module. The call of \<open>get_embeddings_model\<close> stands
  outside their \<open>try\<close>, so what it raises leaves them; an \<open>Exception\<close> of \<open>encode\<close> is caught
  and the empty list returned, any other exception of \<open>encode\<close> leaves them.
\<close>

definition module_embed_text ::
  "error + sentence_transformer \<Rightarrow> sentence_transformer option \<Rightarrow> string
     \<Rightarrow> (error + vec) \<times> sentence_transformer option" where
  "module_embed_text loaded embedding_model t =
     (case get_embeddings_model loaded embedding_model of
        (Inl e, g) \<Rightarrow> (Inl e, g)
      | (Inr None, g) \<Rightarrow> (Inr [], g)
      | (Inr (Some m), g) \<Rightarrow>
          (case encode m t of
             Inl e \<Rightarrow> if is_Exception e then (Inr [], g) else (Inl e, g)
           | Inr v \<Rightarrow> (Inr v, g)))"

definition module_embed_texts ::
  "error + sentence_transformer \<Rightarrow> sentence_transformer option \<Rightarrow> string list
     \<Rightarrow> (error + vec list) \<times> sentence_transformer option" where
  "module_embed_texts loaded embedding_model texts =
     (case get_embeddings_model loaded embedding_model of
        (Inl e, g) \<Rightarrow> (Inl e, g)
      | (Inr None, g) \<Rightarrow> (Inr [], g)
      | (Inr (Some m), g) \<Rightarrow>
          (if texts = [] then (Inr [], g)
           else (case encode_list m texts of
                   Inl e \<Rightarrow> if is_Exception e then (Inr [], g) else (Inl e, g)
                 | Inr vs \<Rightarrow> (Inr vs, g))))"

text \<open>
  A float as \<open>similarity\<close> returns it: a real number, or one of the IEEE values that a
  division by zero produces. numpy divides scalars without raising: \<open>0/0\<close> is NaN and
  \<open>x/0\<close> is an infinity with the sign of \<open>x\<close> (a warning is printed, no exception).
\<close>

datatype npfloat = Finite real | NaN | PosInf | NegInf

definition np_divide :: "real \<Rightarrow> real \<Rightarrow> npfloat" where
  "np_divide x y =
     (if y \<noteq> 0 then Finite (x / y)
      else if x = 0 then NaN else if 0 < x then PosInf else NegInf)"

text \<open>
  \<open>similarity\<close>: the quotient is computed without a test of the norms; an exception
  (the \<open>ValueError\<close> of \<open>numpy.dot\<close>) is caught and 0.0 is returned.
\<close>

definition similarity :: "vec \<Rightarrow> vec \<Rightarrow> npfloat" where
  "similarity embedding1 embedding2 =
     (case dot embedding1 embedding2 of
        Inl e \<Rightarrow> Finite 0
      | Inr d \<Rightarrow> np_divide d (linalg_norm embedding1 * linalg_norm embedding2))"

section \<open>Task registry and worker pool: \<open>TaskManager\<close> (app/utils/tasks.py)\<close>

text \<open>
  A task record is the dictionary that \<open>submit_task\<close> stores under the task id. The
  timestamps are read from the clock (\<open>datetime.utcnow()\<close>), which the caller of each
  operation supplies. \<open>result\<close> is the value the work returned (\<open>None\<close> for Python's
  \<open>None\<close>), \<open>error\<close> the string \<open>str(e)\<close> of the exception it raised.
\<close>

datatype status = Pending | Running | Completed | Failed

record 'r task =
  status :: status
  created_at :: nat
  updated_at :: nat
  result :: "'r option"
  error :: "string option"
  progress :: int

text \<open>
  The unit of work \<open>task_func(*args, **kwargs)\<close> is what it does when it is called: it
  returns a value, raises an \<open>Exception\<close> \<open>e\<close> with \<open>str(e) = msg\<close>, or raises an exception
  that is not an \<open>Exception\<close> (\<open>SystemExit\<close>, \<open>KeyboardInterrupt\<close>).
\<close>

datatype 'r outcome = Returns "'r option" | Raises string | RaisesBase

text \<open>
  The module's state: the dictionary \<open>tasks_tracking\<close>, and the executor
  \<open>ThreadPoolExecutor(max_workers=5)\<close>, which holds the calls of \<open>_execute_task\<close> that were
  submitted and not started (\<open>queue\<close>, first in first out) and the calls that a worker
  thread has started and not finished (\<open>workers\<close>).
\<close>

record 'r state =
  tasks_tracking :: "string \<rightharpoonup> 'r task"
  queue :: "(string \<times> 'r outcome) list"
  workers :: "(string \<times> 'r outcome) list"

definition init_state :: "'r state" where
  "init_state = \<lparr>tasks_tracking = Map.empty, queue = [], workers = []\<rparr>"

definition max_workers :: nat where
  "max_workers = 5"

text \<open>
  \<open>submit_task\<close>: the record is stored under the id, whatever was there, and the call is
  handed to the executor. Nothing in it raises, and there is no test for an id already
  present.
\<close>

definition submit_task ::
  "string \<Rightarrow> 'r outcome \<Rightarrow> nat \<Rightarrow> nat \<Rightarrow> 'r state \<Rightarrow> error + (string \<times> 'r state)" where
  "submit_task task_id task_func now1 now2 s =
     Inr (task_id,
          s\<lparr>tasks_tracking := (tasks_tracking s)(task_id \<mapsto>
               \<lparr>status = Pending, created_at = now1, updated_at = now2,
                result = None, error = None, progress = 0\<rparr>),
            queue := queue s @ [(task_id, task_func)]\<rparr>)"

text \<open>
  \<open>_execute_task\<close> in two parts, so that other threads can run between them: up to the
  call of \<open>task_func\<close>, and from its return or exception on. Each gives the exception that
  leaves \<open>_execute_task\<close>, if any, and the state. The assignments after the work's
  outcome all write the record of the one id and are taken as one step. A \<open>KeyError\<close> of
  \<open>tasks_tracking[task_id]\<close> is caught by \<open>except Exception\<close>, whose handler looks the id up
  again and so raises it again.
\<close>

definition execute_task_begin :: "string \<Rightarrow> 'r state \<Rightarrow> error option \<times> 'r state" where
  "execute_task_begin task_id s =
     (case tasks_tracking s task_id of
        None \<Rightarrow> (Some KeyError, s)
      | Some t \<Rightarrow> (None, s\<lparr>tasks_tracking := (tasks_tracking s)(task_id \<mapsto> t\<lparr>status := Running\<rparr>)\<rparr>))"

definition execute_task_end :: "string \<Rightarrow> 'r outcome \<Rightarrow> 'r state \<Rightarrow> error option \<times> 'r state" where
  "execute_task_end task_id task_func s =
     (case task_func of
        Returns r \<Rightarrow>
          (case tasks_tracking s task_id of
             None \<Rightarrow> (Some KeyError, s)
           | Some t \<Rightarrow>
               (None, s\<lparr>tasks_tracking := (tasks_tracking s)(task_id \<mapsto>
                        t\<lparr>status := Completed, result := r, progress := 100\<rparr>)\<rparr>))
      | Raises msg \<Rightarrow>
          (case tasks_tracking s task_id of
             None \<Rightarrow> (Some KeyError, s)
           | Some t \<Rightarrow>
               (None, s\<lparr>tasks_tracking := (tasks_tracking s)(task_id \<mapsto>
                        t\<lparr>status := Failed, error := Some msg, progress := 0\<rparr>)\<rparr>))
      | RaisesBase \<Rightarrow> (Some SystemExit, s))"

definition execute_task :: "string \<Rightarrow> 'r outcome \<Rightarrow> 'r state \<Rightarrow> error option \<times> 'r state" where
  "execute_task task_id task_func s =
     (case execute_task_begin task_id s of
        (Some e, s') \<Rightarrow> (Some e, s')
      | (None, s') \<Rightarrow> execute_task_end task_id task_func s')"

definition get_task_status :: "string \<Rightarrow> 'r state \<Rightarrow> 'r task option" where
  "get_task_status task_id s = tasks_tracking s task_id"

definition update_task_progress :: "string \<Rightarrow> int \<Rightarrow> nat \<Rightarrow> 'r state \<Rightarrow> 'r state" where
  "update_task_progress task_id p now s =
     (case tasks_tracking s task_id of
        None \<Rightarrow> s
      | Some t \<Rightarrow>
          s\<lparr>tasks_tracking := (tasks_tracking s)(task_id \<mapsto>
               t\<lparr>progress := min 100 (max 0 p), updated_at := now\<rparr>)\<rparr>)"

text \<open>
  The executor: a free worker takes the oldest queued call and starts it; a started call
  finishes at some later time. An exception that leaves \<open>_execute_task\<close> is kept in the
  call's future and the worker goes on.
\<close>

definition pool_dispatch :: "'r state \<Rightarrow> 'r state option" where
  "pool_dispatch s =
     (case queue s of
        [] \<Rightarrow> None
      | (task_id, task_func) # rest \<Rightarrow>
          if length (workers s) < max_workers
          then (case execute_task_begin task_id (s\<lparr>queue := rest\<rparr>) of
                  (Some e, s') \<Rightarrow> Some s'
                | (None, s') \<Rightarrow> Some (s'\<lparr>workers := workers s' @ [(task_id, task_func)]\<rparr>))
          else None)"

definition pool_complete :: "string \<Rightarrow> 'r outcome \<Rightarrow> 'r state \<Rightarrow> 'r state option" where
  "pool_complete task_id task_func s =
     (if (task_id, task_func) \<in> set (workers s)
      then Some (snd (execute_task_end task_id task_func
                   (s\<lparr>workers := remove1 (task_id, task_func) (workers s)\<rparr>)))
      else None)"

text \<open>
  The steps of two threads that run \<open>_execute_task\<close> side by side, and a run of an
  interleaving of such steps: the exceptions that left \<open>_execute_task\<close>, and the final state.
\<close>

datatype 'r action = Begin string | End string "'r outcome"

fun perform :: "'r action \<Rightarrow> 'r state \<Rightarrow> error option \<times> 'r state" where
  "perform (Begin task_id) s = execute_task_begin task_id s"
| "perform (End task_id task_func) s = execute_task_end task_id task_func s"

fun run :: "'r action list \<Rightarrow> 'r state \<Rightarrow> error list \<times> 'r state" where
  "run [] s = ([], s)"
| "run (a # acts) s =
     (case perform a s of
        (None, s') \<Rightarrow> run acts s'
      | (Some e, s') \<Rightarrow> (case run acts s' of (es, s'') \<Rightarrow> (e # es, s'')))"

text \<open>
  The operations as a transition system in which every id is submitted at most once and
  \<open>_execute_task\<close> runs only as the executor runs it, once for each submission.
\<close>

inductive task_step :: "'r state \<Rightarrow> 'r state \<Rightarrow> bool" where
  submit: "task_id \<notin> dom (tasks_tracking s) \<Longrightarrow>
           submit_task task_id task_func now1 now2 s = Inr (task_id, s') \<Longrightarrow> task_step s s'"
| dispatch: "pool_dispatch s = Some s' \<Longrightarrow> task_step s s'"
| complete: "pool_complete task_id task_func s = Some s' \<Longrightarrow> task_step s s'"
| progress: "task_step s (update_task_progress task_id p now s)"
| get: "get_task_status task_id s = r \<Longrightarrow> task_step s s"

inductive reachable :: "'r state \<Rightarrow> bool" where
  start: "reachable init_state"
| after: "reachable s \<Longrightarrow> task_step s s' \<Longrightarrow> reachable s'"

text \<open>The moves of a status that the life cycle allows.\<close>

fun forward :: "status \<Rightarrow> status \<Rightarrow> bool" where
  "forward Pending Running = True"
| "forward Running Completed = True"
| "forward Running Failed = True"
| "forward _ _ = False"

text \<open>
  What holds of every state of that transition system: a queued call belongs to a pending
  task and a started call to a running task, no id has two calls, and a task holds a
  result only when completed and an error only when failed.
\<close>

definition task_inv :: "'r state \<Rightarrow> bool" where
  "task_inv s \<longleftrightarrow>
     (\<forall>(task_id, f) \<in> set (queue s). \<exists>t. tasks_tracking s task_id = Some t \<and> status t = Pending) \<and>
     (\<forall>(task_id, f) \<in> set (workers s). \<exists>t. tasks_tracking s task_id = Some t \<and> status t = Running) \<and>
     distinct (map fst (queue s @ workers s)) \<and>
     (\<forall>task_id t. tasks_tracking s task_id = Some t \<longrightarrow>
        (result t \<noteq> None \<longrightarrow> status t = Completed) \<and> (error t \<noteq> None \<longrightarrow> status t = Failed))"

text \<open>
  Example states for concrete runs. Task \<open>t1\<close> submitted once, and then run to completion
  by the executor. Task \<open>t1\<close> submitted a second time, with work that raises, before the
  executor starts the first call; then both calls started and the first finished; then
  the second finished too.
\<close>

definition submitted_once :: "nat state" where
  "submitted_once = snd (projr (submit_task ''t1'' (Returns (Some 1)) 0 0 init_state))"

definition completed_once :: "nat state" where
  "completed_once =
     the (pool_complete ''t1'' (Returns (Some 1)) (the (pool_dispatch submitted_once)))"

definition submitted_twice :: "nat state" where
  "submitted_twice = snd (projr (submit_task ''t1'' (Raises ''boom'') 1 1 submitted_once))"

definition first_finished :: "nat state" where
  "first_finished =
     the (pool_complete ''t1'' (Returns (Some 1))
       (the (pool_dispatch (the (pool_dispatch submitted_twice)))))"

definition both_finished :: "nat state" where
  "both_finished = the (pool_complete ''t1'' (Raises ''boom'') first_finished)"

section \<open>Properties of the chunker\<close>

declare chunk_loop.simps [simp del]

lemma chunk_loop_stop:
  "\<not> ((0 < step \<and> i < int (length words)) \<or> (step < 0 \<and> int (length words) < i)) \<Longrightarrow>
   chunk_loop words cs step i chunks = chunks"
  by (subst chunk_loop.simps) (simp only: if_False)

lemma chunk_loop_step:
  "(0 < step \<and> i < int (length words)) \<or> (step < 0 \<and> int (length words) < i) \<Longrightarrow>
   chunk_loop words cs step i chunks =
     chunk_loop words cs step (i + step)
       (if strip (join '' '' (slice words i (i + cs))) \<noteq> []
        then chunks @ [join '' '' (slice words i (i + cs))] else chunks)"
  by (subst chunk_loop.simps) (simp only: if_True Let_def)

lemma chunk_loop_chunks:
  "chunk_loop words cs step i chunks = chunks @ chunk_loop words cs step i []"
proof (induction "nat (if 0 < step then int (length words) - i else i - int (length words))"
         arbitrary: i chunks rule: less_induct)
  case less
  show ?case
  proof (cases "(0 < step \<and> i < int (length words)) \<or> (step < 0 \<and> int (length words) < i)")
    case False
    then show ?thesis by (simp add: chunk_loop_stop)
  next
    case True
    let ?chunk = "join '' '' (slice words i (i + cs))"
    have m: "nat (if 0 < step then int (length words) - (i + step) else i + step - int (length words))
           < nat (if 0 < step then int (length words) - i else i - int (length words))"
      using True by auto
    have c: "chunk_loop words cs step (i + step) acc = acc @ chunk_loop words cs step (i + step) []" for acc
      using less [OF m] .
    show ?thesis
      unfolding chunk_loop_step [OF True, of cs chunks] chunk_loop_step [OF True, of cs "[]"]
      by (subst c, subst (2) c) simp
  qed
qed

lemma strip_Nil_iff: "strip s = [] \<longleftrightarrow> (\<forall>c\<in>set s. isspace c)"
proof
  assume "\<forall>c\<in>set s. isspace c"
  then have d: "dropWhile isspace s = []" by (simp only: dropWhile_eq_Nil_conv)
  show "strip s = []" unfolding strip_def d by simp
next
  assume a: "strip s = []"
  show "\<forall>c\<in>set s. isspace c"
  proof (cases "dropWhile isspace s")
    case Nil
    then show ?thesis by (simp add: dropWhile_eq_Nil_conv)
  next
    case (Cons x xs)
    then have "\<not> isspace x" using hd_dropWhile [of isspace s] by simp
    moreover from a Cons have "isspace x" by (simp add: strip_def dropWhile_eq_Nil_conv)
    ultimately show ?thesis by simp
  qed
qed

lemma split_from_words:
  "(\<forall>c\<in>set cur. \<not> isspace c) \<Longrightarrow> w \<in> set (split_from cur s) \<Longrightarrow> w \<noteq> [] \<and> (\<forall>c\<in>set w. \<not> isspace c)"
proof (induction s arbitrary: cur)
  case Nil
  then have "w = cur" "cur \<noteq> []" by (simp_all split: if_splits)
  with Nil show ?case by simp
next
  case (Cons c cs)
  show ?case
  proof (cases "isspace c")
    case False
    with Cons.prems have "w \<in> set (split_from (cur @ [c]) cs)" by simp
    moreover have "\<forall>d\<in>set (cur @ [c]). \<not> isspace d" using Cons.prems(1) False by simp
    ultimately show ?thesis using Cons.IH [of "cur @ [c]"] by blast
  next
    case True
    have nil: "\<forall>d\<in>set ([]::string). \<not> isspace d" by simp
    show ?thesis
    proof (cases "cur = []")
      case True
      with \<open>isspace c\<close> Cons.prems have "w \<in> set (split_from [] cs)" by simp
      then show ?thesis using Cons.IH [OF nil] by blast
    next
      case False
      with \<open>isspace c\<close> Cons.prems have "w = cur \<or> w \<in> set (split_from [] cs)" by simp
      then show ?thesis using Cons.IH [OF nil] Cons.prems(1) False by blast
    qed
  qed
qed

lemma split_words: "w \<in> set (split s) \<Longrightarrow> w \<noteq> [] \<and> (\<forall>c\<in>set w. \<not> isspace c)"
  unfolding split_def using split_from_words [of "[]" w s] by simp

lemma split_from_word:
  "\<forall>c\<in>set w. \<not> isspace c \<Longrightarrow> split_from cur (w @ s) = split_from (cur @ w) s"
  by (induction w arbitrary: cur) auto

lemma isspace_space: "isspace CHR '' ''"
  by (simp add: isspace_def)

lemma split_from_join:
  "\<forall>w\<in>set ws. w \<noteq> [] \<and> (\<forall>c\<in>set w. \<not> isspace c) \<Longrightarrow> split_from [] (join '' '' ws) = ws"
proof (induction "'' ''" ws rule: join.induct)
  case 1
  then show ?case by simp
next
  case (2 w)
  then show ?case using split_from_word [of w "[]" "[]"] by simp
next
  case (3 w v ws)
  have "split_from [] (w @ '' '' @ join '' '' (v # ws)) = split_from w ('' '' @ join '' '' (v # ws))"
    using 3(2) split_from_word [of w "[]"] by simp
  also have "\<dots> = w # split_from [] (join '' '' (v # ws))"
    using 3(2) by (simp add: isspace_space)
  finally show ?case using 3 by simp
qed

lemma join_nonspace:
  "ws \<noteq> [] \<Longrightarrow> \<forall>w\<in>set ws. w \<noteq> [] \<and> (\<forall>c\<in>set w. \<not> isspace c) \<Longrightarrow> strip (join '' '' ws) \<noteq> []"
proof -
  assume a: "ws \<noteq> []" and b: "\<forall>w\<in>set ws. w \<noteq> [] \<and> (\<forall>c\<in>set w. \<not> isspace c)"
  then obtain w vs where ws: "ws = w # vs" by (cases ws) auto
  with b obtain c cs where w: "w = c # cs" and c: "\<not> isspace c" by (cases w) auto
  have "c \<in> set (join '' '' ws)" unfolding ws w by (cases vs) auto
  with c show ?thesis by (auto simp: strip_Nil_iff)
qed

lemma slice_window:
  "0 \<le> i \<Longrightarrow> 0 < cs \<Longrightarrow> slice xs i (i + cs) = take (nat cs) (drop (nat i) xs)"
  by (auto simp: slice_def slice_bound_def Let_def min_def nat_add_distrib take_all_iff)

lemma count_step:
  fixes n i s :: nat
  assumes "0 < s" "i < n"
  shows "(n - i + s - 1) div s = Suc ((n - (i + s) + s - 1) div s)"
proof (cases "i + s \<le> n")
  case True
  define m where "m = n - (i + s) + s - 1"
  have e: "n - i + s - 1 = m + s" using True assms by (simp add: m_def)
  have "(m + s) div s = Suc (m div s)" using assms(1) div_add_self2 [of s m] by simp
  then show ?thesis unfolding e m_def [symmetric] .
next
  case False
  then have a: "n - (i + s) = 0" by simp
  have "(n - i + s - 1) div s = 1"
  proof (rule div_nat_eqI)
    show "s * 1 \<le> n - i + s - 1" using assms by simp
    show "n - i + s - 1 < s * Suc 1" using assms False by simp
  qed
  then show ?thesis using a assms by simp
qed


lemma chunk_loop_windows:
  assumes "0 < step" "0 < cs"
    and "\<forall>w\<in>set words. w \<noteq> [] \<and> (\<forall>c\<in>set w. \<not> isspace c)"
  shows "chunk_loop words cs step (int i) [] =
         map (\<lambda>k. join '' '' (take (nat cs) (drop (i + k * nat step) words)))
           [0 ..< (length words - i + nat step - 1) div nat step]"
proof (induction "length words - i" arbitrary: i rule: less_induct)
  case less
  show ?case
  proof (cases "i < length words")
    case False
    then have "(length words - i + nat step - 1) div nat step = 0" using assms(1) by simp
    moreover have "chunk_loop words cs step (int i) [] = []"
      using False assms(1) by (intro chunk_loop_stop) simp
    ultimately show ?thesis by simp
  next
    case True
    let ?w = "take (nat cs) (drop i words)"
    have c: "(0 < step \<and> int i < int (length words)) \<or> (step < 0 \<and> int (length words) < int i)"
      using True assms(1) by simp
    have sl: "slice words (int i) (int i + cs) = ?w"
      using slice_window [of "int i" cs words] assms(2) by simp
    have ne: "?w \<noteq> []" using True assms(2) by simp
    have "\<forall>w\<in>set ?w. w \<noteq> [] \<and> (\<forall>c\<in>set w. \<not> isspace c)"
      using assms(3) in_set_dropD in_set_takeD by fast
    then have st: "strip (join '' '' ?w) \<noteq> []" using ne join_nonspace by blast
    have nx: "int i + step = int (i + nat step)" using assms(1) by simp
    have "chunk_loop words cs step (int i) [] =
          chunk_loop words cs step (int (i + nat step)) [join '' '' ?w]"
      using chunk_loop_step [OF c, of cs "[]"] st unfolding sl nx by simp
    also have "\<dots> = join '' '' ?w # chunk_loop words cs step (int (i + nat step)) []"
      by (subst chunk_loop_chunks) simp
    also have "chunk_loop words cs step (int (i + nat step)) [] =
         map (\<lambda>k. join '' '' (take (nat cs) (drop (i + nat step + k * nat step) words)))
           [0 ..< (length words - (i + nat step) + nat step - 1) div nat step]"
      using less [of "i + nat step"] True assms(1) by simp
    finally have e: "chunk_loop words cs step (int i) [] = join '' '' ?w #
         map (\<lambda>k. join '' '' (take (nat cs) (drop (i + nat step + k * nat step) words)))
           [0 ..< (length words - (i + nat step) + nat step - 1) div nat step]" .
    have cnt: "(length words - i + nat step - 1) div nat step
             = Suc ((length words - (i + nat step) + nat step - 1) div nat step)"
      using count_step [of "nat step" i "length words"] True assms(1) by simp
    show ?thesis
      unfolding e cnt upt_conv_Cons [OF zero_less_Suc] map_Suc_upt [symmetric]
      by (simp add: comp_def ac_simps)
  qed
qed

lemma chunk_text_spec:
  assumes "0 < chunk_size" "overlap < chunk_size"
  shows "chunk_text text chunk_size overlap = Inr (spec_chunk text chunk_size overlap)"
proof -
  have "chunk_loop (split text) chunk_size (chunk_size - overlap) (int 0) [] =
        map (\<lambda>k. join '' '' (take (nat chunk_size) (drop (0 + k * nat (chunk_size - overlap)) (split text))))
          [0 ..< (length (split text) - 0 + nat (chunk_size - overlap) - 1) div nat (chunk_size - overlap)]"
    using assms split_words by (intro chunk_loop_windows) auto
  then show ?thesis
    using assms by (simp add: chunk_text_def spec_chunk_def spec_windows_def comp_def)
qed


lemma window_start:
  fixes k n s :: nat
  assumes "0 < s" "k < (n + s - 1) div s"
  shows "k * s < n"
proof -
  have "Suc k \<le> (n + s - 1) div s" using assms(2) by simp
  then have "Suc k * s \<le> n + s - 1" using assms(1) by (simp only: less_eq_div_iff_mult_less_eq)
  then show ?thesis using assms(1) by simp
qed

lemma spec_chunk_member:
  assumes "0 < chunk_size" "overlap < chunk_size" "c \<in> set (spec_chunk text chunk_size overlap)"
  shows "\<exists>w. c = join '' '' w \<and> w \<noteq> [] \<and> length w \<le> nat chunk_size \<and>
             (\<forall>v\<in>set w. v \<noteq> [] \<and> (\<forall>d\<in>set v. \<not> isspace d))"
proof -
  let ?s = "nat (chunk_size - overlap)"
  let ?ws = "split text"
  from assms(3) obtain k where k: "k < (length ?ws + ?s - 1) div ?s"
    and c: "c = join '' '' (take (nat chunk_size) (drop (k * ?s) ?ws))"
    by (auto simp: spec_chunk_def spec_windows_def)
  have "k * ?s < length ?ws" using window_start [OF _ k] assms(2) by simp
  then have ne: "take (nat chunk_size) (drop (k * ?s) ?ws) \<noteq> []" using assms(1) by simp
  have "\<forall>v\<in>set (take (nat chunk_size) (drop (k * ?s) ?ws)). v \<noteq> [] \<and> (\<forall>d\<in>set v. \<not> isspace d)"
    using split_words in_set_dropD in_set_takeD by fast
  with c ne show ?thesis by (intro exI [of _ "take (nat chunk_size) (drop (k * ?s) ?ws)"]) simp
qed

text \<open>
  Claim C8. For every text and valid parameters (\<open>chunk_size > 0\<close>, \<open>overlap < chunk_size\<close>),
  \<open>chunk_text\<close> returns exactly the sliding windows of the specification: windows of
  \<open>chunk_size\<close> whitespace tokens starting every \<open>chunk_size - overlap\<close> tokens, the last,
  shorter window included; the empty text gives the empty sequence; and
  \<open>chunk_text("a b c d e f", 3, 1) = ["a b c", "c d e", "e f"]\<close>.
\<close>
theorem chunk_text_sliding_windows:
  "(0 < chunk_size \<and> overlap < chunk_size \<longrightarrow>
      chunk_text text chunk_size overlap = Inr (spec_chunk text chunk_size overlap) \<and>
      chunk_text [] chunk_size overlap = Inr []) \<and>
   chunk_text ''a b c d e f'' 3 1 = Inr [''a b c'', ''c d e'', ''e f'']"
proof -
  have a: "chunk_text t chunk_size overlap = Inr (spec_chunk t chunk_size overlap)"
    if "0 < chunk_size" "overlap < chunk_size" for t
    using that by (rule chunk_text_spec)
  have b: "spec_chunk [] chunk_size overlap = []" if "overlap < chunk_size"
    using that by (simp add: spec_chunk_def spec_windows_def split_def)
  have c: "spec_chunk ''a b c d e f'' 3 1 = [''a b c'', ''c d e'', ''e f'']"
    by code_simp
  have d: "chunk_text ''a b c d e f'' 3 1 = Inr (spec_chunk ''a b c d e f'' 3 1)"
    by (rule chunk_text_spec) simp_all
  show ?thesis using a b c d by simp
qed

theorem chunk_text_sliding_windows_witness:
  "(0::int) < 2 \<and> (0::int) < 2 \<and> chunk_text ''x  y z'' 2 0 = Inr [''x y'', ''z'']
   \<and> chunk_text [] 2 0 = Inr []"
proof -
  have "spec_chunk ''x  y z'' 2 0 = [''x y'', ''z'']" by code_simp
  then show ?thesis using chunk_text_sliding_windows [of 2 0 "''x  y z''"] by simp
qed

text \<open>
  Claim C10. For valid parameters, every chunk that \<open>chunk_text\<close> returns is non-empty after
  stripping whitespace and splits into at most \<open>chunk_size\<close> whitespace-delimited tokens.
\<close>
theorem chunk_text_chunks_bounded:
  assumes "0 < chunk_size" "overlap < chunk_size"
    and "chunk_text text chunk_size overlap = Inr chunks" "c \<in> set chunks"
  shows "strip c \<noteq> [] \<and> length (split c) \<le> nat chunk_size"
proof -
  have "chunks = spec_chunk text chunk_size overlap"
    using chunk_text_spec [OF assms(1) assms(2), of "text"] assms(3) by simp
  with assms obtain w where c: "c = join '' '' w" and ne: "w \<noteq> []"
    and len: "length w \<le> nat chunk_size"
    and ok: "\<forall>v\<in>set w. v \<noteq> [] \<and> (\<forall>d\<in>set v. \<not> isspace d)"
    using spec_chunk_member by blast
  have "split c = w" unfolding c split_def using ok by (rule split_from_join)
  moreover have "strip c \<noteq> []" unfolding c using ne ok by (rule join_nonspace)
  ultimately show ?thesis using len by simp
qed

theorem chunk_text_chunks_bounded_witness:
  "strip ''c d e'' \<noteq> [] \<and> length (split ''c d e'') \<le> nat 3"
proof -
  have a: "chunk_text ''a b c d e f'' 3 1 = Inr [''a b c'', ''c d e'', ''e f'']"
    by code_simp
  have b: "''c d e'' \<in> set [''a b c'', ''c d e'', ''e f'']" by simp
  show ?thesis using chunk_text_chunks_bounded [OF _ _ a b] by simp
qed

lemma chunk_loop_negative:
  "step < 0 \<Longrightarrow> chunk_loop words cs step 0 [] = []"
  by (intro chunk_loop_stop) simp

text \<open>
  Claim C2, as the code has it. \<open>chunk_text\<close> validates nothing. It fails exactly when
  \<open>overlap = chunk_size\<close>, with the \<open>ValueError\<close> of \<open>range\<close> for a zero step; in every
  other case it returns a list, and for \<open>overlap > chunk_size\<close> (a negative step, an empty
  range) that list is empty.
\<close>
theorem chunk_text_error_iff:
  "(chunk_text text chunk_size overlap = Inl ValueError \<longleftrightarrow> overlap = chunk_size) \<and>
   ((\<exists>chunks. chunk_text text chunk_size overlap = Inr chunks) \<longleftrightarrow> overlap \<noteq> chunk_size) \<and>
   (chunk_size < overlap \<longrightarrow> chunk_text text chunk_size overlap = Inr [])"
  by (auto simp: chunk_text_def chunk_loop_negative)

theorem chunk_text_error_iff_witness:
  "chunk_text ''a b'' 2 2 = Inl ValueError \<and> (2::int) < 7 \<and> chunk_text ''a b'' 2 7 = Inr []"
  using chunk_text_error_iff [of "''a b''" 2 2] chunk_text_error_iff [of "''a b''" 2 7] by simp


text \<open>
  The claim as the specification states it fails: with \<open>overlap \<ge> chunk_size\<close> (3 and 5) the
  call returns the empty list, and with \<open>chunk_size \<le> 0\<close> (-1, overlap -3) it returns a chunk,
  the slice \<open>words[0:-1]\<close>; neither call raises.
\<close>
theorem chunk_text_invalid_parameters_counterexample:
  "(5::int) \<ge> 3 \<and> chunk_text ''a b c d'' 3 5 = Inr [] \<and>
   (-1::int) \<le> 0 \<and> chunk_text ''a b c d'' (-1) (-3) = Inr [''a b c'']"
  by code_simp

section \<open>Properties of the similarity engine and the vectorizer\<close>

lemma sum_squares_zero:
  "sum_list (map (\<lambda>x. x * x) a) = 0 \<longleftrightarrow> (\<forall>x\<in>set a. x = (0::real))"
proof (induction a)
  case Nil
  then show ?case by simp
next
  case (Cons x xs)
  have nn: "0 \<le> sum_list (map (\<lambda>x. x * x) xs)" by (rule sum_list_nonneg) auto
  have "x * x + sum_list (map (\<lambda>x. x * x) xs) = 0 \<longleftrightarrow> x * x = 0 \<and> sum_list (map (\<lambda>x. x * x) xs) = 0"
    using nn by (intro add_nonneg_eq_0_iff) simp_all
  with Cons show ?case by simp
qed

lemma linalg_norm_zero: "linalg_norm a = 0 \<longleftrightarrow> (\<forall>x\<in>set a. x = 0)"
  by (simp add: linalg_norm_def sum_squares_zero)

lemma dot_zero_left: "length a = length b \<Longrightarrow> \<forall>x\<in>set a. x = 0 \<Longrightarrow> dot a b = Inr 0"
proof (induction a arbitrary: b)
  case Nil
  then show ?case by (simp add: dot_def)
next
  case (Cons x xs)
  then obtain y ys where b: "b = y # ys" by (cases b) auto
  with Cons.prems have "dot xs ys = Inr 0" by (intro Cons.IH) auto
  with Cons.prems b show ?case by (auto simp: dot_def split: if_splits)
qed

lemma dot_zero_right: "length a = length b \<Longrightarrow> \<forall>x\<in>set b. x = 0 \<Longrightarrow> dot a b = Inr 0"
proof (induction b arbitrary: a)
  case Nil
  then show ?case by (simp add: dot_def)
next
  case (Cons y ys)
  then obtain x xs where a: "a = x # xs" by (cases a) auto
  with Cons.prems have "dot xs ys = Inr 0" by (intro Cons.IH) auto
  with Cons.prems a show ?case by (auto simp: dot_def split: if_splits)
qed

lemma cosine_similarity_zero_norm:
  "length a = length b \<Longrightarrow> linalg_norm a = 0 \<or> linalg_norm b = 0 \<Longrightarrow> cosine_similarity a b = Inr 0"
  by (auto simp: cosine_similarity_def dot_def Let_def)

lemma similarity_zero_norm:
  assumes "length a = length b" "linalg_norm a = 0 \<or> linalg_norm b = 0"
  shows "similarity a b = NaN"
proof -
  have "dot a b = Inr 0"
    using assms dot_zero_left dot_zero_right by (auto simp: linalg_norm_zero)
  moreover have "linalg_norm a * linalg_norm b = 0" using assms(2) by auto
  ultimately show ?thesis by (simp add: similarity_def np_divide_def)
qed

text \<open>
  Claim C5. \<open>EmbeddingsManager.cosine_similarity\<close> returns 0.0 for a vector of norm 0, but the
  module-level \<open>similarity\<close> does not: it has no test of the norms, numpy's \<open>0.0 / 0.0\<close> is
  NaN without an exception, and so its \<open>except\<close> branch, which would return 0.0, is not
  taken. The failing input is \<open>similarity([0.0, 0.0], [1.0, 0.0])\<close>.
\<close>

theorem similarity_zero_vector_nan:
  "linalg_norm [0, 0] = 0 \<and> similarity [0, 0] [1, 0] = NaN \<and> cosine_similarity [0, 0] [1, 0] = Inr 0"
  by (simp add: similarity_def cosine_similarity_def dot_def linalg_norm_def np_divide_def)

lemma sort_by_score_reverse_ties:
  "filter (\<lambda>p. snd p = s) (sort_by_score_reverse xs) = filter (\<lambda>p. snd p = s) xs"
proof -
  have "filter (\<lambda>p. snd p = s) (sort_by_score_reverse xs)
      = rev (filter (\<lambda>p. snd p = s) (sort_key snd (rev xs)))"
    by (simp add: sort_by_score_reverse_def rev_filter)
  also have "\<dots> = rev (filter (\<lambda>p. snd p = s) (rev xs))"
    by (simp only: sort_key_stable)
  also have "\<dots> = filter (\<lambda>p. snd p = s) xs"
    by (simp add: rev_filter)
  finally show ?thesis .
qed

lemma sort_by_score_reverse_mset: "mset (sort_by_score_reverse xs) = mset xs"
  by (simp add: sort_by_score_reverse_def)

lemma sort_by_score_reverse_length: "length (sort_by_score_reverse xs) = length xs"
  by (simp add: sort_by_score_reverse_def)

lemma sort_by_score_reverse_sorted:
  "sorted_wrt (\<lambda>a b. snd b \<le> snd a) (sort_by_score_reverse xs)"
proof -
  have "sorted (map snd (sort_key snd (rev xs)))" by (rule sorted_sort_key)
  then have "sorted_wrt (\<lambda>a b. snd a \<le> snd b) (sort_key snd (rev xs))"
    by (simp add: sorted_map)
  then show ?thesis by (simp add: sort_by_score_reverse_def sorted_wrt_rev)
qed

lemma ties_mset:
  fixes xs ys :: "('a \<times> 'b) list"
  assumes "\<And>s. filter (\<lambda>p. snd p = s) xs = filter (\<lambda>p. snd p = s) ys"
  shows "mset xs = mset ys"
proof (rule multiset_eqI)
  fix x :: "'a \<times> 'b"
  have c: "count (mset zs) x = count (mset (filter (\<lambda>p. snd p = snd x) zs)) x" for zs
    by simp
  show "count (mset xs) x = count (mset ys) x"
    by (subst c, subst (2) c) (simp only: assms)
qed

lemma sort_by_score_reverse_cong:
  assumes "\<And>s. filter (\<lambda>p. snd p = s) xs = filter (\<lambda>p. snd p = s) ys"
  shows "sort_by_score_reverse xs = sort_by_score_reverse ys"
proof -
  have m: "mset xs = mset ys" using assms by (rule ties_mset)
  have r: "filter (\<lambda>p. snd p = s) (rev xs) = filter (\<lambda>p. snd p = s) (rev ys)" for s
    by (simp add: rev_filter [symmetric] assms)
  have "sort_key snd (rev xs) = sort_key snd (rev ys)"
  proof (rule properties_for_sort_key)
    show "mset (sort_key snd (rev ys)) = mset (rev xs)" using m by simp
    show "sorted (map snd (sort_key snd (rev ys)))" by (rule sorted_sort_key)
    fix k assume "k \<in> set (sort_key snd (rev ys))"
    have "filter (\<lambda>x. snd k = snd x) (sort_key snd (rev ys))
        = filter (\<lambda>x. snd x = snd k) (sort_key snd (rev ys))"
      by (rule filter_cong) auto
    also have "\<dots> = filter (\<lambda>x. snd x = snd k) (rev ys)" by (simp only: sort_key_stable)
    also have "\<dots> = filter (\<lambda>x. snd x = snd k) (rev xs)" by (simp only: r)
    also have "\<dots> = filter (\<lambda>x. snd k = snd x) (rev xs)" by (rule filter_cong) auto
    finally show "filter (\<lambda>x. snd k = snd x) (sort_key snd (rev ys))
        = filter (\<lambda>x. snd k = snd x) (rev xs)" .
  qed
  then show ?thesis by (simp add: sort_by_score_reverse_def)
qed

lemma slice_prefix_all: "slice xs 0 (int (length xs)) = xs"
  by (simp add: slice_def slice_bound_def)

lemma slice_prefix_take: "0 \<le> k \<Longrightarrow> slice xs 0 k = take (nat k) xs"
  by (simp add: slice_def slice_bound_def min_def)

lemma slice_prefix_ge: "int (length xs) \<le> k \<Longrightarrow> slice xs 0 k = xs"
  by (auto simp: slice_def slice_bound_def min_def)

lemma encode_list_total:
  assumes "\<And>t. \<exists>v. encode m t = Inr v"
  shows "encode_list m ts = Inr (map (\<lambda>t. projr (encode m t)) ts)"
proof (induction ts)
  case Nil
  then show ?case by simp
next
  case (Cons t ts)
  obtain v where "encode m t = Inr v" using assms by blast
  with Cons show ?case by simp
qed

lemma cosine_similarity_cases:
  "cosine_similarity q d = (if length q = length d then Inr (projr (cosine_similarity q d)) else Inl ValueError)"
  by (simp add: cosine_similarity_def dot_def Let_def)

lemma doc_score_eq:
  assumes "encode (model self) query = Inr q" "encode (model self) doc = Inr d" "length q = length d"
  shows "doc_score self query doc = projr (cosine_similarity q d)"
proof -
  obtain s where s: "cosine_similarity q d = Inr s"
    using assms(3) cosine_similarity_cases [of q d] by simp
  show ?thesis using assms(1,2) by (simp add: doc_score_def s)
qed

lemma similarities_loop_total:
  assumes q: "encode (model self) query = Inr q"
    and tot: "\<And>t. \<exists>v. encode (model self) t = Inr v"
  shows "similarities_loop q (map (\<lambda>t. (t, projr (encode (model self) t))) docs) acc =
         (if \<forall>t\<in>set docs. length (projr (encode (model self) t)) = length q
          then Inr (acc @ scored self query docs) else Inl ValueError)"
proof (induction docs arbitrary: acc)
  case Nil
  then show ?case by (simp add: scored_def)
next
  case (Cons t ts)
  obtain d where d: "encode (model self) t = Inr d" using tot by blast
  show ?case
  proof (cases "length q = length d")
    case False
    then have "cosine_similarity q d = Inl ValueError"
      using cosine_similarity_cases [of q d] by simp
    with False d show ?thesis by auto
  next
    case True
    then have c: "cosine_similarity q d = Inr (doc_score self query t)"
      using cosine_similarity_cases [of q d] doc_score_eq [OF q d True] by simp
    have "similarities_loop q (map (\<lambda>t. (t, projr (encode (model self) t))) (t # ts)) acc
        = similarities_loop q (map (\<lambda>t. (t, projr (encode (model self) t))) ts)
            (acc @ [(t, doc_score self query t)])"
      using c d by simp
    also have "\<dots> = (if \<forall>t\<in>set ts. length (projr (encode (model self) t)) = length q
          then Inr ((acc @ [(t, doc_score self query t)]) @ scored self query ts) else Inl ValueError)"
      by (rule Cons.IH)
    finally show ?thesis using True d by (simp add: scored_def)
  qed
qed

lemma search_total:
  assumes tot: "\<And>t. \<exists>v. encode (model self) t = Inr v"
  shows "search self query docs k =
         (if \<forall>t\<in>set docs. length (projr (encode (model self) t)) = length (projr (encode (model self) query))
          then Inr (slice (sort_by_score_reverse (scored self query docs)) 0 k)
          else Inl ValueError)"
proof -
  obtain q where q: "encode (model self) query = Inr q" using tot by blast
  have z: "zip docs (map (\<lambda>t. projr (encode (model self) t)) docs)
         = map (\<lambda>t. (t, projr (encode (model self) t))) docs"
    by (induction docs) simp_all
  show ?thesis
    using similarities_loop_total [OF q tot, of docs "[]"]
    by (simp add: search_def embed_text_def embed_texts_def encode_list_total [OF tot] q z)
qed

declare batch_loop.simps [simp del]

lemma batch_loop_stop:
  "\<not> ((0 < cs \<and> i < int (length docs)) \<or> (cs < 0 \<and> int (length docs) < i)) \<Longrightarrow>
   batch_loop self query docs cs i acc = Inr acc"
  by (subst batch_loop.simps) (simp only: if_False)

lemma batch_loop_step:
  "(0 < cs \<and> i < int (length docs)) \<or> (cs < 0 \<and> int (length docs) < i) \<Longrightarrow>
   batch_loop self query docs cs i acc =
     (case search self query (slice docs i (i + cs)) (int (length (slice docs i (i + cs)))) of
        Inl e \<Rightarrow> Inl e
      | Inr results \<Rightarrow> batch_loop self query docs cs (i + cs) (acc @ results))"
  by (subst batch_loop.simps) (simp only: if_True Let_def)

lemma scored_append: "scored self query (xs @ ys) = scored self query xs @ scored self query ys"
  by (simp add: scored_def)

lemma batch_loop_total:
  assumes cs: "0 < cs"
    and tot: "\<And>t. \<exists>v. encode (model self) t = Inr v"
  shows "if \<forall>t\<in>set (drop i docs). length (projr (encode (model self) t)) = length (projr (encode (model self) query))
         then \<exists>L. batch_loop self query docs cs (int i) acc = Inr L \<and>
                (\<forall>s. filter (\<lambda>p. snd p = s) L
                    = filter (\<lambda>p. snd p = s) (acc @ scored self query (drop i docs)))
         else batch_loop self query docs cs (int i) acc = Inl ValueError"
proof (induction "length docs - i" arbitrary: i acc rule: less_induct)
  case less
  let ?ok = "\<lambda>t. length (projr (encode (model self) t)) = length (projr (encode (model self) query))"
  show ?case
  proof (cases "i < length docs")
    case False
    then have "batch_loop self query docs cs (int i) acc = Inr acc"
      using cs by (intro batch_loop_stop) simp
    with False show ?thesis by (simp add: scored_def)
  next
    case True
    let ?batch = "take (nat cs) (drop i docs)"
    let ?j = "i + nat cs"
    have c: "(0 < cs \<and> int i < int (length docs)) \<or> (cs < 0 \<and> int (length docs) < int i)"
      using True cs by simp
    have sl: "slice docs (int i) (int i + cs) = ?batch"
      using slice_window [of "int i" cs docs] cs by simp
    have nx: "int i + cs = int ?j" using cs by simp
    have sl': "slice docs (int i) (int ?j) = ?batch" using sl by (simp only: nx)
    have step: "batch_loop self query docs cs (int i) acc =
       (case search self query ?batch (int (length ?batch)) of
          Inl e \<Rightarrow> Inl e
        | Inr results \<Rightarrow> batch_loop self query docs cs (int ?j) (acc @ results))"
      using batch_loop_step [OF c, of self query acc] by (simp only: nx sl')
    have split_docs: "drop i docs = ?batch @ drop ?j docs"
      by (simp add: add.commute [of i] drop_drop [symmetric] del: drop_drop)
    have m: "length docs - ?j < length docs - i" using True cs by simp
    show ?thesis
    proof (cases "\<forall>t\<in>set ?batch. ?ok t")
      case False
      then have srch: "search self query ?batch (int (length ?batch)) = Inl ValueError"
        unfolding search_total [OF tot] by (rule if_not_P)
      have bl: "batch_loop self query docs cs (int i) acc = Inl ValueError"
        unfolding step srch by simp
      have notall: "\<not> (\<forall>t\<in>set (drop i docs). ?ok t)"
        using False by (subst split_docs) auto
      show ?thesis unfolding if_not_P [OF notall] by (rule bl)
    next
      case bok: True
      let ?r = "sort_by_score_reverse (scored self query ?batch)"
      have "search self query ?batch (int (length ?batch))
          = Inr (slice ?r 0 (int (length ?batch)))"
        unfolding search_total [OF tot] using bok by (rule if_P)
      also have "slice ?r 0 (int (length ?batch)) = ?r"
        by (rule slice_prefix_ge) (simp add: sort_by_score_reverse_length scored_def)
      finally have srch: "search self query ?batch (int (length ?batch)) = Inr ?r" .
      have step': "batch_loop self query docs cs (int i) acc
                 = batch_loop self query docs cs (int ?j) (acc @ ?r)"
        unfolding step srch by simp
      show ?thesis
      proof (cases "\<forall>t\<in>set (drop ?j docs). ?ok t")
        case False
        then have bl: "batch_loop self query docs cs (int ?j) (acc @ ?r) = Inl ValueError"
          using less [OF m, of "acc @ ?r"] by meson
        have notall: "\<not> (\<forall>t\<in>set (drop i docs). ?ok t)"
          using False by (subst split_docs) auto
        show ?thesis unfolding if_not_P [OF notall] step' by (rule bl)
      next
        case rok: True
        then obtain L where L: "batch_loop self query docs cs (int ?j) (acc @ ?r) = Inr L"
          and t: "\<And>s. filter (\<lambda>p. snd p = s) L
                    = filter (\<lambda>p. snd p = s) ((acc @ ?r) @ scored self query (drop ?j docs))"
          using less [OF m, of "acc @ ?r"] by meson
        have all: "\<forall>t\<in>set (drop i docs). ?ok t"
          using bok rok by (subst split_docs) auto
        have ties: "filter (\<lambda>p. snd p = s) L
            = filter (\<lambda>p. snd p = s) (acc @ scored self query (drop i docs))" for s
          unfolding t by (subst (2) split_docs)
            (simp add: scored_append sort_by_score_reverse_ties)
        show ?thesis unfolding if_P [OF all] step' using L ties by blast
      qed
    qed
  qed
qed


lemma batch_loop_ok:
  assumes "0 < cs" and tot: "\<And>t. \<exists>v. encode (model self) t = Inr v"
    and ok: "\<forall>t\<in>set docs. length (projr (encode (model self) t)) = length (projr (encode (model self) query))"
  shows "\<exists>L. batch_loop self query docs cs 0 [] = Inr L \<and>
           (\<forall>s. filter (\<lambda>p. snd p = s) L = filter (\<lambda>p. snd p = s) (scored self query docs))"
proof -
  have ok': "\<forall>t\<in>set (drop 0 docs). length (projr (encode (model self) t)) = length (projr (encode (model self) query))"
    using ok by simp
  have "\<exists>L. batch_loop self query docs cs (int 0) [] = Inr L \<and>
                (\<forall>s. filter (\<lambda>p. snd p = s) L
                    = filter (\<lambda>p. snd p = s) ([] @ scored self query (drop 0 docs)))"
    using batch_loop_total [OF assms(1) tot, of 0 docs query "[]"] ok' by meson
  then show ?thesis by simp
qed

lemma batch_loop_bad:
  assumes "0 < cs" and tot: "\<And>t. \<exists>v. encode (model self) t = Inr v"
    and bad: "\<not> (\<forall>t\<in>set docs. length (projr (encode (model self) t)) = length (projr (encode (model self) query)))"
  shows "batch_loop self query docs cs 0 [] = Inl ValueError"
proof -
  have bad': "\<not> (\<forall>t\<in>set (drop 0 docs). length (projr (encode (model self) t)) = length (projr (encode (model self) query)))"
    using bad by simp
  have "batch_loop self query docs cs (int 0) [] = Inl ValueError"
    using batch_loop_total [OF assms(1) tot, of 0 docs query "[]"] bad' by meson
  then show ?thesis by simp
qed

lemmas search_eval = search_def embed_text_def embed_texts_def length_manager_def length_model_def
  cosine_similarity_def dot_def linalg_norm_def sort_by_score_reverse_def slice_def slice_bound_def Let_def

lemma search_example:
  "search length_manager ''pet'' [''x'', ''no'', ''cat'', ''dog''] 3 =
     Inr [(''cat'', 1), (''dog'', 1), (''no'', 0)]"
  by (simp add: search_eval)

lemma search_example_neg:
  "search length_manager ''pet'' [''x'', ''no'', ''cat'', ''dog''] (-1) =
     Inr [(''cat'', 1), (''dog'', 1), (''no'', 0)]"
  by (simp add: search_eval)

lemma search_example_all:
  "search length_manager ''pet'' [''x'', ''no'', ''cat'', ''dog''] 4 =
     Inr [(''cat'', 1), (''dog'', 1), (''no'', 0), (''x'', -1)]"
  by (simp add: search_eval)

lemma length_manager_total: "\<exists>v. encode (model length_manager) t = Inr v \<and> length v = embedding_dim length_manager"
  by (simp add: length_manager_def length_model_def)


text \<open>
  Claim C1. For a positive \<open>chunk_size\<close> and a model that embeds every text (a deterministic
  function from texts to vectors), \<open>batch_search\<close> returns exactly what \<open>search\<close> returns on
  the whole corpus, for every query, corpus and \<open>top_k\<close>: the same ordered list of
  (document, score) pairs, or the same \<open>ValueError\<close> where an embedding has the wrong length.
\<close>
theorem batch_search_equals_search:
  assumes "0 < chunk_size" and "\<forall>t. \<exists>v. encode (model self) t = Inr v"
  shows "batch_search self query documents chunk_size top_k = search self query documents top_k"
proof -
  have tot: "\<exists>v. encode (model self) t = Inr v" for t using assms(2) by blast
  let ?ok = "\<lambda>t. length (projr (encode (model self) t)) = length (projr (encode (model self) query))"
  show ?thesis
  proof (cases "\<forall>t\<in>set documents. ?ok t")
    case False
    then have "batch_loop self query documents chunk_size 0 [] = Inl ValueError"
      by (rule batch_loop_bad [OF assms(1) tot])
    moreover have "search self query documents top_k = Inl ValueError"
      unfolding search_total [OF tot] using False by (rule if_not_P)
    ultimately show ?thesis using assms(1) by (simp add: batch_search_def)
  next
    case True
    then obtain L where L: "batch_loop self query documents chunk_size 0 [] = Inr L"
      and t: "\<And>s. filter (\<lambda>p. snd p = s) L = filter (\<lambda>p. snd p = s) (scored self query documents)"
      using batch_loop_ok [OF assms(1) tot] by meson
    have "sort_by_score_reverse L = sort_by_score_reverse (scored self query documents)"
      using t by (rule sort_by_score_reverse_cong)
    moreover have "search self query documents top_k
        = Inr (slice (sort_by_score_reverse (scored self query documents)) 0 top_k)"
      unfolding search_total [OF tot] using True by (rule if_P)
    ultimately show ?thesis using assms(1) L by (simp add: batch_search_def)
  qed
qed

theorem batch_search_equals_search_witness:
  "(0::int) < 2 \<and>
   batch_search length_manager ''pet'' [''x'', ''no'', ''cat'', ''dog''] 2 3 =
     Inr [(''cat'', 1), (''dog'', 1), (''no'', 0)]"
proof -
  have tot: "\<forall>t. \<exists>v. encode (model length_manager) t = Inr v"
    by (simp add: length_manager_def length_model_def)
  have pos: "(0::int) < 2" by simp
  show ?thesis
    using batch_search_equals_search [OF pos tot, of "''pet''" "[''x'', ''no'', ''cat'', ''dog'']" 3]
    by (simp add: search_example)
qed

text \<open>
  Claim C6, for \<open>top_k \<ge> 0\<close>. With a model that embeds every text into a vector of its
  dimension, \<open>search\<close> never fails. The whole-corpus ranking \<open>ranked\<close> (what \<open>top_k =
  len(documents)\<close> returns) holds every document once with its score, is sorted by
  non-increasing score, and keeps documents of equal score in corpus order; for
  \<open>top_k \<ge> 0\<close> the result is the prefix of \<open>ranked\<close> of length \<open>top_k\<close>, hence at most
  \<open>min(top_k, len(documents))\<close> items, and for \<open>top_k \<ge> len(documents)\<close> it is \<open>ranked\<close> itself.
\<close>
theorem search_ranked_prefix:
  assumes "\<forall>t. \<exists>v. encode (model self) t = Inr v \<and> length v = embedding_dim self"
  shows "\<exists>ranked.
           search self query documents (int (length documents)) = Inr ranked \<and>
           length ranked = length documents \<and>
           (\<forall>s. filter (\<lambda>p. snd p = s) ranked
               = filter (\<lambda>p. snd p = s) (scored self query documents)) \<and>
           sorted_wrt (\<lambda>a b. snd b \<le> snd a) ranked \<and>
           (\<forall>k. 0 \<le> k \<longrightarrow>
              search self query documents k = Inr (take (nat k) ranked) \<and>
              int (length (take (nat k) ranked)) \<le> min k (int (length documents))) \<and>
           (\<forall>k. int (length documents) \<le> k \<longrightarrow> search self query documents k = Inr ranked)"
proof -
  have tot: "\<exists>v. encode (model self) t = Inr v" for t using assms by blast
  have dim: "length (projr (encode (model self) t)) = embedding_dim self" for t
    using assms by (metis sum.sel(2))
  let ?ranked = "sort_by_score_reverse (scored self query documents)"
  have s: "search self query documents k = Inr (slice ?ranked 0 k)" for k
    unfolding search_total [OF tot] by (rule if_P) (simp add: dim)
  have len: "length ?ranked = length documents"
    by (simp add: sort_by_score_reverse_length scored_def)
  have a: "search self query documents (int (length documents)) = Inr ?ranked"
    unfolding s by (simp add: slice_prefix_ge len)
  have b: "search self query documents k = Inr (take (nat k) ?ranked)" if "0 \<le> k" for k
    unfolding s using that by (simp add: slice_prefix_take)
  have c: "int (length (take (nat k) ?ranked)) \<le> min k (int (length documents))" if "0 \<le> k" for k
    using that by (simp add: len)
  have d: "search self query documents k = Inr ?ranked" if "int (length documents) \<le> k" for k
    unfolding s using that by (simp add: slice_prefix_ge len)
  show ?thesis
    using a len b c d sort_by_score_reverse_ties [of _ "scored self query documents"]
      sort_by_score_reverse_sorted [of "scored self query documents"]
    by (intro exI [of _ ?ranked]) simp
qed


theorem search_ranked_prefix_witness:
  "search length_manager ''pet'' [''x'', ''no'', ''cat'', ''dog''] 2 = Inr [(''cat'', 1), (''dog'', 1)] \<and>
   search length_manager ''pet'' [''x'', ''no'', ''cat'', ''dog''] 9 =
     Inr [(''cat'', 1), (''dog'', 1), (''no'', 0), (''x'', -1)]"
proof -
  have tot: "\<forall>t. \<exists>v. encode (model length_manager) t = Inr v \<and> length v = embedding_dim length_manager"
    using length_manager_total by blast
  obtain ranked where
    r: "search length_manager ''pet'' [''x'', ''no'', ''cat'', ''dog'']
          (int (length [''x'', ''no'', ''cat'', ''dog''])) = Inr ranked"
    and p: "\<And>k. 0 \<le> k \<Longrightarrow>
          search length_manager ''pet'' [''x'', ''no'', ''cat'', ''dog''] k = Inr (take (nat k) ranked)"
    using search_ranked_prefix [OF tot, of "''pet''" "[''x'', ''no'', ''cat'', ''dog'']"] by blast
  have "ranked = [(''cat'', 1), (''dog'', 1), (''no'', 0), (''x'', -1)]"
    using r by (simp add: search_example_all)
  then show ?thesis using p [of 2] p [of 9] by simp
qed

text \<open>
  For a negative \<open>top_k\<close> the claim as stated fails: the slice \<open>similarities[:-1]\<close> drops the
  last item only, so a corpus of four documents gives three results, more than
  \<open>min(-1, 4)\<close>.
\<close>

theorem search_negative_top_k_counterexample:
  "search length_manager ''pet'' [''x'', ''no'', ''cat'', ''dog''] (-1) =
     Inr [(''cat'', 1), (''dog'', 1), (''no'', 0)] \<and>
   \<not> int (length [(''cat'', 1::real), (''dog'', 1), (''no'', 0)])
       \<le> min (-1) (int (length [''x'', ''no'', ''cat'', ''dog'']))"
  by (simp add: search_example_neg)

text \<open>
  Claim C9, as the code has it. When the model cannot be loaded, \<open>EmbeddingsManager.__init__\<close>
  fails with the constructor's own exception, so no manager exists whose embedding
  operations could be called. \<open>embed_text\<close> and \<open>embed_texts\<close> of embeddings.py, called with
  no model loaded yet, do not fail when the constructor raises an \<open>Exception\<close>: they return
  the empty list and leave the global model unset. When the constructor raises an
  exception that is not an \<open>Exception\<close>, that exception leaves them as it is.
\<close>

theorem model_load_failure:
  "loaded = Inl e \<Longrightarrow>
     EmbeddingsManager_init loaded = Inl e \<and>
     module_embed_text loaded None t =
       (if is_Exception e then (Inr [], None) else (Inl e, None)) \<and>
     module_embed_texts loaded None texts =
       (if is_Exception e then (Inr [], None) else (Inl e, None))"
  by (simp add: EmbeddingsManager_init_def module_embed_text_def module_embed_texts_def
        get_embeddings_model_def)

theorem model_load_failure_witness:
  "EmbeddingsManager_init (Inl LoadError) = Inl LoadError \<and>
   module_embed_text (Inl LoadError) None ''hello'' = (Inr [], None) \<and>
   module_embed_texts (Inl LoadError) None [''a'', ''b''] = (Inr [], None) \<and>
   module_embed_text (Inl SystemExit) None ''hello'' = (Inl SystemExit, None)"
  using model_load_failure [of "Inl LoadError" LoadError "''hello''" "[''a'', ''b'']"]
    model_load_failure [of "Inl SystemExit" SystemExit "''hello''" "[''a'', ''b'']"]
  by simp

text \<open>
  The claim as stated fails for the module functions: with a model whose constructor
  raises an \<open>Exception\<close> they return an empty list where the claim wants a
  \<open>ModelUnavailable\<close> error.
\<close>

theorem module_embed_silent_counterexample:
  "module_embed_text (Inl LoadError) None ''hello'' = (Inr [], None) \<and>
   module_embed_texts (Inl LoadError) None [''a'', ''b''] = (Inr [], None)"
  by (simp add: module_embed_text_def module_embed_texts_def get_embeddings_model_def)

section \<open>Properties of the task registry and the worker pool\<close>

lemma submitted_once_eval:
  "submitted_once = \<lparr>tasks_tracking = [''t1'' \<mapsto> \<lparr>status = Pending, created_at = 0, updated_at = 0,
        result = None, error = None, progress = 0\<rparr>], queue = [(''t1'', Returns (Some 1))], workers = []\<rparr>"
  by (simp add: submitted_once_def submit_task_def init_state_def)

lemma completed_once_eval:
  "completed_once = \<lparr>tasks_tracking = [''t1'' \<mapsto> \<lparr>status = Completed, created_at = 0, updated_at = 0,
        result = Some 1, error = None, progress = 100\<rparr>], queue = [], workers = []\<rparr>"
  by (simp add: completed_once_def submitted_once_eval pool_dispatch_def pool_complete_def
        execute_task_begin_def execute_task_end_def max_workers_def)

lemma submitted_twice_eval:
  "submitted_twice = \<lparr>tasks_tracking = [''t1'' \<mapsto> \<lparr>status = Pending, created_at = 1, updated_at = 1,
        result = None, error = None, progress = 0\<rparr>],
      queue = [(''t1'', Returns (Some 1)), (''t1'', Raises ''boom'')], workers = []\<rparr>"
  by (simp add: submitted_twice_def submitted_once_eval submit_task_def)

lemma first_finished_eval:
  "first_finished = \<lparr>tasks_tracking = [''t1'' \<mapsto> \<lparr>status = Completed, created_at = 1, updated_at = 1,
        result = Some 1, error = None, progress = 100\<rparr>],
      queue = [], workers = [(''t1'', Raises ''boom'')]\<rparr>"
  by (simp add: first_finished_def submitted_twice_eval pool_dispatch_def pool_complete_def
        execute_task_begin_def execute_task_end_def max_workers_def)

lemma both_finished_eval:
  "both_finished = \<lparr>tasks_tracking = [''t1'' \<mapsto> \<lparr>status = Failed, created_at = 1, updated_at = 1,
        result = Some 1, error = Some ''boom'', progress = 0\<rparr>],
      queue = [], workers = []\<rparr>"
  by (simp add: both_finished_def first_finished_eval pool_complete_def execute_task_end_def)

text \<open>
  Claim C3, as the code has it. \<open>submit_task\<close> has no test for an id that is already
  present and raises no \<open>DuplicateTask\<close>: every call succeeds and returns the id, stores a
  fresh pending record under the id in place of whatever was there, and hands the new work
  to the executor behind the calls already queued.
\<close>

theorem submit_task_overwrites:
  "\<exists>s'. submit_task task_id task_func now1 now2 s = Inr (task_id, s') \<and>
        tasks_tracking s' = (tasks_tracking s)(task_id \<mapsto>
          \<lparr>status = Pending, created_at = now1, updated_at = now2,
           result = None, error = None, progress = 0\<rparr>) \<and>
        queue s' = queue s @ [(task_id, task_func)] \<and> workers s' = workers s"
  by (simp add: submit_task_def)

theorem submit_task_overwrites_witness:
  "\<exists>s'. submit_task ''t1'' (Raises ''boom'') 1 1 completed_once = Inr (''t1'', s') \<and>
        get_task_status ''t1'' s' = Some \<lparr>status = Pending, created_at = 1, updated_at = 1,
           result = None, error = None, progress = 0\<rparr> \<and>
        queue s' = [(''t1'', Raises ''boom'')]"
  using submit_task_overwrites [of "''t1''" "Raises ''boom''" 1 1 completed_once]
  by (auto simp: completed_once_eval get_task_status_def)

text \<open>
  The claim as stated fails: with \<open>t1\<close> present and completed, a second \<open>submit_task\<close> under
  \<open>t1\<close> is not rejected, the completed record (result 1) is replaced by a pending one
  without result, and the new work is queued for execution.
\<close>

theorem submit_task_duplicate_counterexample:
  "get_task_status ''t1'' completed_once =
     Some \<lparr>status = Completed, created_at = 0, updated_at = 0,
           result = Some 1, error = None, progress = 100\<rparr> \<and>
   submit_task ''t1'' (Raises ''boom'') 1 1 completed_once \<noteq> Inl DuplicateTask \<and>
   get_task_status ''t1'' (snd (projr (submit_task ''t1'' (Raises ''boom'') 1 1 completed_once))) =
     Some \<lparr>status = Pending, created_at = 1, updated_at = 1,
           result = None, error = None, progress = 0\<rparr> \<and>
   queue (snd (projr (submit_task ''t1'' (Raises ''boom'') 1 1 completed_once))) =
     [(''t1'', Raises ''boom'')]"
  by (simp add: completed_once_eval get_task_status_def submit_task_def)

lemma shuffles_two:
  "shuffles [a, b] [c, d] = {[a,b,c,d],[a,c,b,d],[a,c,d,b],[c,a,b,d],[c,a,d,b],[c,d,a,b]}"
  by auto

text \<open>
  Claim C7, as the code has it. When the work of a registered task raises an \<open>Exception\<close>
  \<open>e\<close>, \<open>_execute_task\<close> catches it: no exception leaves \<open>_execute_task\<close>, the task ends
  with status failed and with \<open>str(e)\<close> as its error, whatever that string is, and the task
  of another thread that runs at the same time and succeeds ends completed with its
  result; no other record changes. This holds for each of the six ways in which the two
  steps of each thread (up to the call of the work, and from its outcome on) can
  interleave.
\<close>

theorem failure_is_contained:
  assumes "t2 \<noteq> t3" "tasks_tracking s t2 = Some r2" "tasks_tracking s t3 = Some r3"
    and "acts \<in> shuffles [Begin t2, End t2 (Raises msg)] [Begin t3, End t3 (Returns v)]"
  shows "\<exists>s'. run acts s = ([], s') \<and>
           tasks_tracking s' = (tasks_tracking s)
             (t2 \<mapsto> r2\<lparr>status := Failed, error := Some msg, progress := 0\<rparr>,
              t3 \<mapsto> r3\<lparr>status := Completed, result := v, progress := 100\<rparr>)"
proof -
  from assms(4) consider
      "acts = [Begin t2, End t2 (Raises msg), Begin t3, End t3 (Returns v)]"
    | "acts = [Begin t2, Begin t3, End t2 (Raises msg), End t3 (Returns v)]"
    | "acts = [Begin t2, Begin t3, End t3 (Returns v), End t2 (Raises msg)]"
    | "acts = [Begin t3, Begin t2, End t2 (Raises msg), End t3 (Returns v)]"
    | "acts = [Begin t3, Begin t2, End t3 (Returns v), End t2 (Raises msg)]"
    | "acts = [Begin t3, End t3 (Returns v), Begin t2, End t2 (Raises msg)]"
    unfolding shuffles_two by blast
  then show ?thesis
  proof cases
    case 1 then show ?thesis using assms(1-3) by (auto simp: execute_task_begin_def execute_task_end_def)
  next
    case 2 then show ?thesis using assms(1-3) by (auto simp: execute_task_begin_def execute_task_end_def)
  next
    case 3 then show ?thesis using assms(1-3) by (auto simp: execute_task_begin_def execute_task_end_def)
  next
    case 4 then show ?thesis using assms(1-3) by (auto simp: execute_task_begin_def execute_task_end_def)
  next
    case 5 then show ?thesis using assms(1-3) by (auto simp: execute_task_begin_def execute_task_end_def)
  next
    case 6 then show ?thesis using assms(1-3) by (auto simp: execute_task_begin_def execute_task_end_def)
  qed
qed

theorem failure_is_contained_witness:
  "\<exists>s'. run [Begin ''t2'', Begin ''t3'', End ''t2'' (Raises ''boom''), End ''t3'' (Returns (Some (1::nat)))]
          (snd (projr (submit_task ''t3'' (Returns (Some 1)) 0 0
             (snd (projr (submit_task ''t2'' (Raises ''boom'') 0 0 init_state)))))) = ([], s') \<and>
        get_task_status ''t2'' s' = Some \<lparr>status = Failed, created_at = 0, updated_at = 0,
           result = None, error = Some ''boom'', progress = 0\<rparr> \<and>
        get_task_status ''t3'' s' = Some \<lparr>status = Completed, created_at = 0, updated_at = 0,
           result = Some 1, error = None, progress = 100\<rparr>"
proof -
  let ?s = "snd (projr (submit_task ''t3'' (Returns (Some (1::nat))) 0 0
             (snd (projr (submit_task ''t2'' (Raises ''boom'') 0 0 init_state)))))"
  have a: "''t2'' \<noteq> ''t3''" by simp
  have b: "tasks_tracking ?s ''t2'' = Some \<lparr>status = Pending, created_at = 0, updated_at = 0,
           result = None, error = None, progress = 0\<rparr>"
    by (simp add: submit_task_def init_state_def)
  have c: "tasks_tracking ?s ''t3'' = Some \<lparr>status = Pending, created_at = 0, updated_at = 0,
           result = None, error = None, progress = 0\<rparr>"
    by (simp add: submit_task_def init_state_def)
  have d: "[Begin ''t2'', Begin ''t3'', End ''t2'' (Raises ''boom''), End ''t3'' (Returns (Some (1::nat)))]
        \<in> shuffles [Begin ''t2'', End ''t2'' (Raises ''boom'')] [Begin ''t3'', End ''t3'' (Returns (Some 1))]"
    unfolding shuffles_two by simp
  from failure_is_contained [OF a b c d] obtain s' where
    r: "run [Begin ''t2'', Begin ''t3'', End ''t2'' (Raises ''boom''), End ''t3'' (Returns (Some (1::nat)))] ?s
          = ([], s')"
    and m: "tasks_tracking s' = (tasks_tracking ?s)
             (''t2'' \<mapsto> \<lparr>status = Pending, created_at = 0, updated_at = 0,
                 result = None, error = None, progress = 0\<rparr>
                 \<lparr>status := Failed, error := Some ''boom'', progress := 0\<rparr>,
              ''t3'' \<mapsto> \<lparr>status = Pending, created_at = 0, updated_at = 0,
                 result = None, error = None, progress = 0\<rparr>
                 \<lparr>status := Completed, result := Some 1, progress := 100\<rparr>)"
    by blast
  have t2: "get_task_status ''t2'' s' = Some \<lparr>status = Failed, created_at = 0, updated_at = 0,
           result = None, error = Some ''boom'', progress = 0\<rparr>"
    unfolding get_task_status_def m by simp
  have t3: "get_task_status ''t3'' s' = Some \<lparr>status = Completed, created_at = 0, updated_at = 0,
           result = Some 1, error = None, progress = 100\<rparr>"
    unfolding get_task_status_def m by simp
  show ?thesis using r t2 t3 by blast
qed

text \<open>
  The claim as stated fails in two ways. An exception without a message (a failed
  \<open>assert\<close>, \<open>raise ValueError()\<close>) has \<open>str(e) = ""\<close>, so the failed task's error message
  is the empty string. And an exception that is not an \<open>Exception\<close> is not caught by
  \<open>except Exception\<close>: it leaves \<open>_execute_task\<close>, and the task stays running without an
  error.
\<close>

theorem unrecorded_failure_counterexample:
  "fst (execute_task ''t2'' (Raises [])
         (snd (projr (submit_task ''t2'' (Raises []) 0 0 (init_state :: nat state))))) = None \<and>
   get_task_status ''t2'' (snd (execute_task ''t2'' (Raises [])
         (snd (projr (submit_task ''t2'' (Raises []) 0 0 (init_state :: nat state)))))) =
     Some \<lparr>status = Failed, created_at = 0, updated_at = 0,
           result = None, error = Some [], progress = 0\<rparr> \<and>
   fst (execute_task ''t2'' RaisesBase
         (snd (projr (submit_task ''t2'' RaisesBase 0 0 (init_state :: nat state))))) = Some SystemExit \<and>
   get_task_status ''t2'' (snd (execute_task ''t2'' RaisesBase
         (snd (projr (submit_task ''t2'' RaisesBase 0 0 (init_state :: nat state)))))) =
     Some \<lparr>status = Running, created_at = 0, updated_at = 0,
           result = None, error = None, progress = 0\<rparr>"
  by (simp add: submit_task_def init_state_def execute_task_def execute_task_begin_def
        execute_task_end_def get_task_status_def)

lemma task_inv_init: "task_inv init_state"
  by (simp add: task_inv_def init_state_def)

lemma distinct_fst_remove1:
  "distinct (map fst xs) \<Longrightarrow> distinct (map fst (remove1 x xs))"
proof (induction xs)
  case Nil
  then show ?case by simp
next
  case (Cons y ys)
  have "fst ` set (remove1 x ys) \<subseteq> fst ` set ys" using set_remove1_subset by fast
  with Cons show ?case by auto
qed

lemma remove1_other_key:
  assumes "distinct (map fst xs)" "(k, f) \<in> set xs" "(k', g) \<in> set (remove1 (k, f) xs)"
  shows "k' \<noteq> k"
  using assms
proof (induction xs)
  case Nil
  then show ?case by simp
next
  case (Cons y ys)
  show ?case
  proof (cases "y = (k, f)")
    case True
    with Cons.prems have "(k', g) \<in> set ys" "k \<notin> fst ` set ys" by auto
    then show ?thesis by force
  next
    case False
    with Cons.prems have kf: "(k, f) \<in> set ys" and d: "distinct (map fst ys)"
      and y: "fst y \<notin> fst ` set ys" by auto
    from Cons.prems(3) False have "(k', g) = y \<or> (k', g) \<in> set (remove1 (k, f) ys)" by auto
    then show ?thesis
    proof
      assume "(k', g) = y"
      with y kf show ?thesis by force
    next
      assume "(k', g) \<in> set (remove1 (k, f) ys)"
      with Cons.IH d kf show ?thesis by blast
    qed
  qed
qed


lemma task_invI:
  assumes "\<And>i f. (i, f) \<in> set (queue s) \<Longrightarrow> \<exists>t. tasks_tracking s i = Some t \<and> status t = Pending"
    and "\<And>i f. (i, f) \<in> set (workers s) \<Longrightarrow> \<exists>t. tasks_tracking s i = Some t \<and> status t = Running"
    and "distinct (map fst (queue s @ workers s))"
    and "\<And>i t. tasks_tracking s i = Some t \<Longrightarrow>
           (result t \<noteq> None \<longrightarrow> status t = Completed) \<and> (error t \<noteq> None \<longrightarrow> status t = Failed)"
  shows "task_inv s"
  unfolding task_inv_def using assms by blast

lemma task_inv_queue:
  "task_inv s \<Longrightarrow> (i, f) \<in> set (queue s) \<Longrightarrow> \<exists>t. tasks_tracking s i = Some t \<and> status t = Pending"
  unfolding task_inv_def by blast

lemma task_inv_workers:
  "task_inv s \<Longrightarrow> (i, f) \<in> set (workers s) \<Longrightarrow> \<exists>t. tasks_tracking s i = Some t \<and> status t = Running"
  unfolding task_inv_def by blast

lemma task_inv_distinct: "task_inv s \<Longrightarrow> distinct (map fst (queue s @ workers s))"
  unfolding task_inv_def by blast

lemma task_inv_fields:
  "task_inv s \<Longrightarrow> tasks_tracking s i = Some t \<Longrightarrow>
     (result t \<noteq> None \<longrightarrow> status t = Completed) \<and> (error t \<noteq> None \<longrightarrow> status t = Failed)"
  unfolding task_inv_def by blast

lemma task_inv_submit:
  assumes inv: "task_inv s" and fresh: "task_id \<notin> dom (tasks_tracking s)"
    and sub: "submit_task task_id task_func now1 now2 s = Inr (task_id, s')"
  shows "task_inv s'"
proof -
  let ?new = "\<lparr>status = Pending, created_at = now1, updated_at = now2,
                result = None, error = None, progress = 0\<rparr> :: 'a task"
  have s': "s' = s\<lparr>tasks_tracking := (tasks_tracking s)(task_id \<mapsto> ?new),
                   queue := queue s @ [(task_id, task_func)]\<rparr>"
    using sub by (simp add: submit_task_def)
  have nq: "i \<noteq> task_id" if "(i, f) \<in> set (queue s)" for i f
    using task_inv_queue [OF inv that] fresh by auto
  have nw: "i \<noteq> task_id" if "(i, f) \<in> set (workers s)" for i f
    using task_inv_workers [OF inv that] fresh by auto
  show ?thesis
  proof (rule task_invI)
    fix i f assume "(i, f) \<in> set (queue s')"
    then have "(i, f) \<in> set (queue s) \<or> (i, f) = (task_id, task_func)" by (auto simp: s')
    then show "\<exists>t. tasks_tracking s' i = Some t \<and> status t = Pending"
    proof
      assume q: "(i, f) \<in> set (queue s)"
      then show ?thesis using task_inv_queue [OF inv q] nq [OF q] by (simp add: s')
    next
      assume "(i, f) = (task_id, task_func)"
      then show ?thesis by (simp add: s')
    qed
  next
    fix i f assume "(i, f) \<in> set (workers s')"
    then have w: "(i, f) \<in> set (workers s)" by (simp add: s')
    then show "\<exists>t. tasks_tracking s' i = Some t \<and> status t = Running"
      using task_inv_workers [OF inv w] nw [OF w] by (simp add: s')
  next
    have "task_id \<notin> fst ` set (queue s)" "task_id \<notin> fst ` set (workers s)"
      using nq nw by fastforce+
    then show "distinct (map fst (queue s' @ workers s'))"
      using task_inv_distinct [OF inv] by (auto simp: s')
  next
    fix i t assume "tasks_tracking s' i = Some t"
    then have "t = ?new \<or> tasks_tracking s i = Some t" by (auto simp: s' split: if_splits)
    then show "(result t \<noteq> None \<longrightarrow> status t = Completed) \<and> (error t \<noteq> None \<longrightarrow> status t = Failed)"
      using task_inv_fields [OF inv] by auto
  qed
qed

lemma task_inv_progress:
  assumes inv: "task_inv s"
  shows "task_inv (update_task_progress task_id p now s)"
proof (cases "tasks_tracking s task_id")
  case None
  then show ?thesis using inv by (simp add: update_task_progress_def)
next
  case (Some t0)
  let ?t = "t0\<lparr>progress := min 100 (max 0 p), updated_at := now\<rparr>"
  let ?s = "update_task_progress task_id p now s"
  have s': "?s = s\<lparr>tasks_tracking := (tasks_tracking s)(task_id \<mapsto> ?t)\<rparr>"
    using Some by (simp add: update_task_progress_def)
  have look: "\<exists>t. tasks_tracking s i = Some t \<and> status t = status u \<and> result t = result u \<and> error t = error u"
    if "tasks_tracking ?s i = Some u" for i u
    using that Some by (cases "i = task_id") (auto simp: s')
  have keep: "\<exists>u. tasks_tracking ?s i = Some u \<and> status u = status t"
    if "tasks_tracking s i = Some t" for i t
    using that Some by (cases "i = task_id") (auto simp: s')
  show ?thesis
  proof (rule task_invI)
    fix i f assume "(i, f) \<in> set (queue ?s)"
    then have q: "(i, f) \<in> set (queue s)" by (simp add: s')
    show "\<exists>t. tasks_tracking ?s i = Some t \<and> status t = Pending"
      using task_inv_queue [OF inv q] keep by fastforce
  next
    fix i f assume "(i, f) \<in> set (workers ?s)"
    then have w: "(i, f) \<in> set (workers s)" by (simp add: s')
    show "\<exists>t. tasks_tracking ?s i = Some t \<and> status t = Running"
      using task_inv_workers [OF inv w] keep by fastforce
  next
    show "distinct (map fst (queue ?s @ workers ?s))"
      using task_inv_distinct [OF inv] by (simp add: s')
  next
    fix i u assume "tasks_tracking ?s i = Some u"
    then obtain t where "tasks_tracking s i = Some t" "status t = status u"
      "result t = result u" "error t = error u" using look by blast
    then show "(result u \<noteq> None \<longrightarrow> status u = Completed) \<and> (error u \<noteq> None \<longrightarrow> status u = Failed)"
      using task_inv_fields [OF inv, of i t] by simp
  qed
qed

lemma pool_dispatch_effect:
  assumes inv: "task_inv s" and d: "pool_dispatch s = Some s'"
  obtains task_id f rest t where "queue s = (task_id, f) # rest"
    "tasks_tracking s task_id = Some t" "status t = Pending"
    "tasks_tracking s' = (tasks_tracking s)(task_id \<mapsto> t\<lparr>status := Running\<rparr>)"
    "queue s' = rest" "workers s' = workers s @ [(task_id, f)]"
proof -
  from d obtain task_id f rest where q: "queue s = (task_id, f) # rest"
    by (cases "queue s") (auto simp: pool_dispatch_def)
  then have "(task_id, f) \<in> set (queue s)" by simp
  from task_inv_queue [OF inv this] obtain t where
    t: "tasks_tracking s task_id = Some t" "status t = Pending" by blast
  from d q t have free: "length (workers s) < max_workers"
    by (auto simp: pool_dispatch_def split: if_splits)
  have "s' = s\<lparr>queue := rest,
               tasks_tracking := (tasks_tracking s)(task_id \<mapsto> t\<lparr>status := Running\<rparr>),
               workers := workers s @ [(task_id, f)]\<rparr>"
    using d q t free by (simp add: pool_dispatch_def execute_task_begin_def)
  then have "tasks_tracking s' = (tasks_tracking s)(task_id \<mapsto> t\<lparr>status := Running\<rparr>)"
    "queue s' = rest" "workers s' = workers s @ [(task_id, f)]" by simp_all
  with q t that show ?thesis by blast
qed

lemma pool_complete_effect:
  assumes inv: "task_inv s" and c: "pool_complete task_id f s = Some s'"
  obtains t where "(task_id, f) \<in> set (workers s)"
    "tasks_tracking s task_id = Some t" "status t = Running"
    "tasks_tracking s' =
       (case f of
          Returns r \<Rightarrow> (tasks_tracking s)(task_id \<mapsto> t\<lparr>status := Completed, result := r, progress := 100\<rparr>)
        | Raises msg \<Rightarrow> (tasks_tracking s)(task_id \<mapsto> t\<lparr>status := Failed, error := Some msg, progress := 0\<rparr>)
        | RaisesBase \<Rightarrow> tasks_tracking s)"
    "queue s' = queue s" "workers s' = remove1 (task_id, f) (workers s)"
proof -
  from c have w: "(task_id, f) \<in> set (workers s)"
    by (auto simp: pool_complete_def split: if_splits)
  from task_inv_workers [OF inv this] obtain t where
    t: "tasks_tracking s task_id = Some t" "status t = Running" by blast
  have s': "s' = snd (execute_task_end task_id f (s\<lparr>workers := remove1 (task_id, f) (workers s)\<rparr>))"
    using c w by (simp add: pool_complete_def)
  have "tasks_tracking s' =
       (case f of
          Returns r \<Rightarrow> (tasks_tracking s)(task_id \<mapsto> t\<lparr>status := Completed, result := r, progress := 100\<rparr>)
        | Raises msg \<Rightarrow> (tasks_tracking s)(task_id \<mapsto> t\<lparr>status := Failed, error := Some msg, progress := 0\<rparr>)
        | RaisesBase \<Rightarrow> tasks_tracking s)"
    "queue s' = queue s" "workers s' = remove1 (task_id, f) (workers s)"
    unfolding s' using t by (cases f; simp add: execute_task_end_def)+
  with w t that show ?thesis by blast
qed

lemma task_inv_dispatch:
  assumes inv: "task_inv s" and d: "pool_dispatch s = Some s'"
  shows "task_inv s'"
proof -
  from inv d obtain task_id f rest t where q: "queue s = (task_id, f) # rest"
    and t: "tasks_tracking s task_id = Some t" "status t = Pending"
    and tt: "tasks_tracking s' = (tasks_tracking s)(task_id \<mapsto> t\<lparr>status := Running\<rparr>)"
    and q': "queue s' = rest" and w': "workers s' = workers s @ [(task_id, f)]"
    by (rule pool_dispatch_effect)
  have dist: "distinct (map fst ((task_id, f) # rest @ workers s))"
    using task_inv_distinct [OF inv] q by simp
  have notin: "task_id \<notin> fst ` set rest" "task_id \<notin> fst ` set (workers s)"
    and dist': "distinct (map fst rest)" "distinct (map fst (workers s))"
      "fst ` set rest \<inter> fst ` set (workers s) = {}"
    using dist by simp_all
  have nq: "i \<noteq> task_id" if "(i, g) \<in> set rest" for i g
  proof -
    have "i \<in> fst ` set rest" using that by force
    with notin(1) show ?thesis by blast
  qed
  have nw: "i \<noteq> task_id" if "(i, g) \<in> set (workers s)" for i g
  proof -
    have "i \<in> fst ` set (workers s)" using that by force
    with notin(2) show ?thesis by blast
  qed
  show ?thesis
  proof (rule task_invI)
    fix i g assume a: "(i, g) \<in> set (queue s')"
    then have "(i, g) \<in> set (queue s)" by (simp add: q q')
    from task_inv_queue [OF inv this] nq [of i g] a
    show "\<exists>t. tasks_tracking s' i = Some t \<and> status t = Pending" by (simp add: tt q')
  next
    fix i g assume "(i, g) \<in> set (workers s')"
    then have "(i, g) \<in> set (workers s) \<or> (i, g) = (task_id, f)" by (auto simp: w')
    then show "\<exists>t. tasks_tracking s' i = Some t \<and> status t = Running"
    proof
      assume w: "(i, g) \<in> set (workers s)"
      from task_inv_workers [OF inv w] nw [OF w] show ?thesis by (simp add: tt)
    next
      assume "(i, g) = (task_id, f)"
      then show ?thesis by (simp add: tt)
    qed
  next
    show "distinct (map fst (queue s' @ workers s'))"
      using notin dist' by (simp add: q' w')
  next
    fix i u assume a: "tasks_tracking s' i = Some u"
    show "(result u \<noteq> None \<longrightarrow> status u = Completed) \<and> (error u \<noteq> None \<longrightarrow> status u = Failed)"
    proof (cases "i = task_id")
      case True
      with a have u: "u = t\<lparr>status := Running\<rparr>" by (simp add: tt)
      from task_inv_fields [OF inv t(1)] t(2) have "result t = None" "error t = None" by auto
      then show ?thesis by (simp add: u)
    next
      case False
      with a have "tasks_tracking s i = Some u" by (simp add: tt)
      then show ?thesis by (rule task_inv_fields [OF inv])
    qed
  qed
qed

lemma task_inv_complete:
  assumes inv: "task_inv s" and c: "pool_complete task_id f s = Some s'"
  shows "task_inv s'"
proof -
  from inv c obtain t where w: "(task_id, f) \<in> set (workers s)"
    and t: "tasks_tracking s task_id = Some t" "status t = Running"
    and tt: "tasks_tracking s' =
       (case f of
          Returns r \<Rightarrow> (tasks_tracking s)(task_id \<mapsto> t\<lparr>status := Completed, result := r, progress := 100\<rparr>)
        | Raises msg \<Rightarrow> (tasks_tracking s)(task_id \<mapsto> t\<lparr>status := Failed, error := Some msg, progress := 0\<rparr>)
        | RaisesBase \<Rightarrow> tasks_tracking s)"
    and q': "queue s' = queue s" and w': "workers s' = remove1 (task_id, f) (workers s)"
    by (rule pool_complete_effect)
  have dist: "distinct (map fst (queue s))" "distinct (map fst (workers s))"
    "fst ` set (queue s) \<inter> fst ` set (workers s) = {}"
    using task_inv_distinct [OF inv] by simp_all
  have other: "tasks_tracking s' i = tasks_tracking s i" if "i \<noteq> task_id" for i
    using that by (cases f) (simp_all add: tt)
  have nq: "i \<noteq> task_id" if "(i, g) \<in> set (queue s)" for i g
  proof -
    have "i \<in> fst ` set (queue s)" using that by force
    moreover have "task_id \<in> fst ` set (workers s)" using w by force
    ultimately show ?thesis using dist(3) by blast
  qed
  have nw: "i \<noteq> task_id" if "(i, g) \<in> set (workers s')" for i g
    using remove1_other_key [OF dist(2) w] that unfolding w' by blast
  have none: "result t = None" "error t = None"
    using task_inv_fields [OF inv t(1)] t(2) by auto
  show ?thesis
  proof (rule task_invI)
    fix i g assume "(i, g) \<in> set (queue s')"
    then have a: "(i, g) \<in> set (queue s)" by (simp add: q')
    from task_inv_queue [OF inv a] other [OF nq [OF a]]
    show "\<exists>t. tasks_tracking s' i = Some t \<and> status t = Pending" by simp
  next
    fix i g assume a: "(i, g) \<in> set (workers s')"
    then have "(i, g) \<in> set (workers s)"
      using set_remove1_subset [of "(task_id, f)" "workers s"] unfolding w' by blast
    from task_inv_workers [OF inv this] other [OF nw [OF a]]
    show "\<exists>t. tasks_tracking s' i = Some t \<and> status t = Running" by simp
  next
    have "distinct (map fst (remove1 (task_id, f) (workers s)))"
      using dist(2) by (rule distinct_fst_remove1)
    moreover have "fst ` set (remove1 (task_id, f) (workers s)) \<subseteq> fst ` set (workers s)"
      using set_remove1_subset by fast
    moreover from this have "fst ` set (queue s) \<inter> fst ` set (remove1 (task_id, f) (workers s)) = {}"
      using dist(3) by blast
    ultimately show "distinct (map fst (queue s' @ workers s'))"
      using dist(1) by (simp add: q' w')
  next
    fix i u assume a: "tasks_tracking s' i = Some u"
    show "(result u \<noteq> None \<longrightarrow> status u = Completed) \<and> (error u \<noteq> None \<longrightarrow> status u = Failed)"
    proof (cases "i = task_id")
      case False
      with a other have "tasks_tracking s i = Some u" by simp
      then show ?thesis by (rule task_inv_fields [OF inv])
    next
      case True
      show ?thesis
      proof (cases f)
        case (Returns r)
        with a True have "u = t\<lparr>status := Completed, result := r, progress := 100\<rparr>" by (simp add: tt)
        then show ?thesis using none by simp
      next
        case (Raises msg)
        with a True have "u = t\<lparr>status := Failed, error := Some msg, progress := 0\<rparr>" by (simp add: tt)
        then show ?thesis using none by simp
      next
        case RaisesBase
        with a True have "u = t" using t by (simp add: tt)
        then show ?thesis using none by simp
      qed
    qed
  qed
qed

lemma task_inv_step:
  assumes "task_inv s" "task_step s s'"
  shows "task_inv s'"
  using assms(2,1)
proof cases
  case (submit task_id task_func now1 now2)
  with assms(1) show ?thesis using task_inv_submit by blast
next
  case dispatch
  with assms(1) show ?thesis using task_inv_dispatch by blast
next
  case (complete task_id task_func)
  with assms(1) show ?thesis using task_inv_complete by blast
next
  case (progress task_id p now)
  with assms(1) show ?thesis using task_inv_progress by blast
next
  case (get task_id r)
  with assms(1) show ?thesis by simp
qed

lemma reachable_task_inv: "reachable s \<Longrightarrow> task_inv s"
proof (induction rule: reachable.induct)
  case start
  show ?case by (rule task_inv_init)
next
  case (after s s')
  then show ?case using task_inv_step by blast
qed

lemma task_step_forward:
  assumes inv: "task_inv s" and st: "task_step s s'" and t: "tasks_tracking s i = Some t"
  shows "\<exists>t'. tasks_tracking s' i = Some t' \<and> (status t' = status t \<or> forward (status t) (status t'))"
  using st
proof cases
  case (submit task_id task_func now1 now2)
  from submit(1) t have "i \<noteq> task_id" by auto
  with submit(2) t show ?thesis by (auto simp: submit_task_def)
next
  case dispatch
  from inv dispatch obtain task_id f rest t0 where
    t0: "tasks_tracking s task_id = Some t0" "status t0 = Pending"
    and tt: "tasks_tracking s' = (tasks_tracking s)(task_id \<mapsto> t0\<lparr>status := Running\<rparr>)"
    by (rule pool_dispatch_effect)
  show ?thesis
  proof (cases "i = task_id")
    case True
    with t t0 have "t = t0" by simp
    with True t0 show ?thesis by (simp add: tt)
  next
    case False
    with t show ?thesis by (simp add: tt)
  qed
next
  case (complete task_id f)
  from inv complete obtain t0 where
    t0: "tasks_tracking s task_id = Some t0" "status t0 = Running"
    and tt: "tasks_tracking s' =
       (case f of
          Returns r \<Rightarrow> (tasks_tracking s)(task_id \<mapsto> t0\<lparr>status := Completed, result := r, progress := 100\<rparr>)
        | Raises msg \<Rightarrow> (tasks_tracking s)(task_id \<mapsto> t0\<lparr>status := Failed, error := Some msg, progress := 0\<rparr>)
        | RaisesBase \<Rightarrow> tasks_tracking s)"
    by (rule pool_complete_effect)
  show ?thesis
  proof (cases "i = task_id")
    case True
    with t t0 have "t = t0" by simp
    with True t0 show ?thesis by (cases f) (simp_all add: tt)
  next
    case False
    with t show ?thesis by (cases f) (simp_all add: tt)
  qed
next
  case (progress task_id p now)
  show ?thesis
  proof (cases "tasks_tracking s task_id")
    case None
    with progress t show ?thesis by (simp add: update_task_progress_def)
  next
    case (Some t0)
    with progress t show ?thesis
      by (cases "i = task_id") (simp_all add: update_task_progress_def)
  qed
next
  case (get task_id r)
  with t show ?thesis by simp
qed

lemma task_inv_at_most_one:
  assumes "task_inv s" "tasks_tracking s i = Some t"
  shows "result t = None \<or> error t = None"
proof (rule ccontr)
  assume "\<not> (result t = None \<or> error t = None)"
  then have r: "result t \<noteq> None" and e: "error t \<noteq> None" by simp_all
  have c: "status t = Completed" using task_inv_fields [OF assms] r by blast
  have f: "status t = Failed" using task_inv_fields [OF assms] e by blast
  show False using c f by simp
qed

text \<open>
  Claim C4, for ids that are submitted once. In every state that is reachable when no id
  is submitted a second time and \<open>_execute_task\<close> runs only as the executor's call for a
  submission, each task record has a result or an error but never both, and every
  operation leaves the status of each task as it is or moves it one step forward:
  pending to running, running to completed or failed. A completed or failed task stays so.
\<close>

theorem unique_ids_lifecycle:
  assumes "reachable s" "task_step s s'" "tasks_tracking s task_id = Some t"
  shows "(result t = None \<or> error t = None) \<and>
         (\<exists>t'. tasks_tracking s' task_id = Some t' \<and>
               (status t' = status t \<or> forward (status t) (status t')) \<and>
               (result t' = None \<or> error t' = None))"
proof -
  have inv: "task_inv s" using assms(1) by (rule reachable_task_inv)
  have inv': "task_inv s'" using inv assms(2) by (rule task_inv_step)
  obtain t' where t': "tasks_tracking s' task_id = Some t'"
    "status t' = status t \<or> forward (status t) (status t')"
    using task_step_forward [OF inv assms(2,3)] by blast
  show ?thesis
    using task_inv_at_most_one [OF inv assms(3)] task_inv_at_most_one [OF inv' t'(1)] t' by blast
qed

theorem unique_ids_lifecycle_witness:
  "\<exists>t'. tasks_tracking completed_once ''t1'' = Some t' \<and> forward Running (status t') \<and>
        result t' = Some 1 \<and> error t' = None"
proof -
  let ?running = "the (pool_dispatch submitted_once)"
  have e: "?running = \<lparr>tasks_tracking = [''t1'' \<mapsto> \<lparr>status = Running, created_at = 0, updated_at = 0,
        result = None, error = None, progress = 0\<rparr>], queue = [], workers = [(''t1'', Returns (Some 1))]\<rparr>"
    by (simp add: submitted_once_eval pool_dispatch_def execute_task_begin_def max_workers_def)
  have "task_step init_state submitted_once"
    by (rule task_step.submit [of "''t1''" _ "Returns (Some 1)" 0 0])
       (simp_all add: submitted_once_def submit_task_def init_state_def)
  then have r1: "reachable submitted_once" using reachable.start reachable.after by blast
  have "task_step submitted_once ?running"
    by (rule task_step.dispatch)
       (simp add: submitted_once_eval pool_dispatch_def execute_task_begin_def max_workers_def)
  then have r2: "reachable ?running" using r1 reachable.after by blast
  have st: "task_step ?running completed_once"
    by (rule task_step.complete [of "''t1''" "Returns (Some 1)"])
       (simp add: completed_once_def e pool_complete_def)
  have t: "tasks_tracking ?running ''t1'' = Some \<lparr>status = Running, created_at = 0, updated_at = 0,
        result = None, error = None, progress = 0\<rparr>"
    by (simp add: e)
  show ?thesis
    using unique_ids_lifecycle [OF r2 st t] by (auto simp: completed_once_eval)
qed

text \<open>
  Without that restriction the claim fails. With \<open>t1\<close> submitted twice before the executor
  starts either call, the first call completes the task with result 1, and the second
  then moves it from completed to failed and adds an error while the result stays.
\<close>

theorem duplicate_submission_counterexample:
  "get_task_status ''t1'' first_finished =
     Some \<lparr>status = Completed, created_at = 1, updated_at = 1,
           result = Some 1, error = None, progress = 100\<rparr> \<and>
   pool_complete ''t1'' (Raises ''boom'') first_finished = Some both_finished \<and>
   get_task_status ''t1'' both_finished =
     Some \<lparr>status = Failed, created_at = 1, updated_at = 1,
           result = Some 1, error = Some ''boom'', progress = 0\<rparr>"
  by (simp add: first_finished_eval both_finished_eval get_task_status_def pool_complete_def
        execute_task_end_def)

end
